theory Spec2Isabelle
  imports Complex_Main
begin

section \<open>E-series of preferred numbers: the module \<open>eseries.py\<close>\<close>

text \<open>
  The module works on Python floats, which are binary64 numbers. A float is one of the three
  non-finite values or a finite value, carried as the real number it denotes. An operation
  that produces a value (a product, a quotient, a difference, a power, \<open>round\<close>) gives the
  binary64 number nearest to its exact result, or an infinity where the exact result is
  beyond the binary64 range. Logarithms, and the arithmetic on logarithms by which
  \<open>erange\<close> selects the table positions to visit, are exact: \<open>math.log10\<close> is \<open>log 10\<close>.
  Exceptions are values of type \<open>error\<close>.
\<close>

subsection \<open>Floats and exceptions\<close>

datatype pyfloat = Finite real | PosInf | NegInf | NaN

fun isfinite :: "pyfloat \<Rightarrow> bool" where
  "isfinite (Finite x) = True"
| "isfinite PosInf = False"
| "isfinite NegInf = False"
| "isfinite NaN = False"

datatype bound = StartBound | StopBound

text \<open>
  The messages of the \<open>ValueError\<close>s raised by the module. A message keeps the values
  that are formatted into it: \<open>TooSmall v b\<close> is the text
  "\<open>v\<close> is too small. The \<open>b\<close> value must greater than or equal to 1e-200".
\<close>

datatype message =
    NotFinite bound pyfloat
  | TooSmall pyfloat bound
  | StartAfterStop pyfloat pyfloat
  | BadNum int
  | NotIntegral
  | NaNToInteger

datatype error = ValueError message | AssertionError | OverflowError | IndexError

text \<open>The binary64 number that the literal \<open>1e-200\<close> denotes; it is a little below \<open>10 ^ -200\<close>.\<close>

definition MINIMUM_E_VALUE :: real where
  "MINIMUM_E_VALUE = 1723641332219371 / 2 ^ 715"

text \<open>
  Rounding to binary64, to the nearest number with ties to even: 53 significant bits, and
  below \<open>2 ^ -1022\<close> the fixed spacing \<open>2 ^ -1074\<close> of the subnormal numbers.
\<close>

definition round_half_even :: "real \<Rightarrow> int" where
  "round_half_even y =
     (let f = \<lfloor>y\<rfloor>; r = y - of_int f in
      if r < 1 / 2 then f
      else if 1 / 2 < r then f + 1
      else if even f then f else f + 1)"

definition binary64 :: "real \<Rightarrow> real" where
  "binary64 x =
     (if x = 0 then 0
      else (let e = max \<lfloor>log 2 \<bar>x\<bar>\<rfloor> (- 1022);
                q = 2 powr of_int (e - 52)
            in of_int (round_half_even (x / q)) * q))"

text \<open>An exact result of this magnitude or more rounds to an infinity in binary64.\<close>

definition float_overflow :: real where
  "float_overflow = 2 ^ 1024 - 2 ^ 970"

definition py_mul :: "real \<Rightarrow> real \<Rightarrow> pyfloat" where
  "py_mul x y =
     (if float_overflow \<le> x * y then PosInf
      else if x * y \<le> - float_overflow then NegInf
      else Finite (binary64 (x * y)))"

text \<open>\<open>math.pow(10, n)\<close> for an integer \<open>n\<close>: it raises OverflowError out of range.\<close>

definition math_pow10 :: "int \<Rightarrow> error + real" where
  "math_pow10 n =
     (if float_overflow \<le> 10 powr of_int n then Inl OverflowError
      else Inr (binary64 (10 powr of_int n)))"

subsection \<open>The series tables\<close>

datatype ESeries = E3 | E6 | E12 | E24 | E48 | E96 | E192

fun ESeries_value :: "ESeries \<Rightarrow> nat" where
  "ESeries_value E3 = 3"
| "ESeries_value E6 = 6"
| "ESeries_value E12 = 12"
| "ESeries_value E24 = 24"
| "ESeries_value E48 = 48"
| "ESeries_value E96 = 96"
| "ESeries_value E192 = 192"

definition E3_values :: "int list" where
  "E3_values =
    [10, 22, 47]"

definition E6_values :: "int list" where
  "E6_values =
    [10, 15, 22, 33, 47, 68]"

definition E12_values :: "int list" where
  "E12_values =
    [10, 12, 15, 18, 22, 27, 33, 39, 47, 56, 68, 82]"

definition E24_values :: "int list" where
  "E24_values =
    [10, 11, 12, 13, 15, 16, 18, 20, 22, 24, 27, 30, 33, 36, 39, 43, 47, 51, 56, 62, 68, 75, 82,
     91]"

definition E48_values :: "int list" where
  "E48_values =
    [100, 105, 110, 115, 121, 127, 133, 140, 147, 154, 162, 169, 178, 187, 196, 205, 215, 226,
     237, 249, 261, 274, 287, 301, 316, 332, 348, 365, 383, 402, 422, 442, 464, 487, 511, 536,
     562, 590, 619, 649, 681, 715, 750, 787, 825, 866, 909, 953]"

definition E96_values :: "int list" where
  "E96_values =
    [100, 102, 105, 107, 110, 113, 115, 118, 121, 124, 127, 130, 133, 137, 140, 143, 147, 150,
     154, 158, 162, 165, 169, 174, 178, 182, 187, 191, 196, 200, 205, 210, 215, 221, 226, 232,
     237, 243, 249, 255, 261, 267, 274, 280, 287, 294, 301, 309, 316, 324, 332, 340, 348, 357,
     365, 374, 383, 392, 402, 412, 422, 432, 442, 453, 464, 475, 487, 499, 511, 523, 536, 549,
     562, 576, 590, 604, 619, 634, 649, 665, 681, 698, 715, 732, 750, 768, 787, 806, 825, 845,
     866, 887, 909, 931, 953, 976]"

definition E192_values :: "int list" where
  "E192_values =
    [100, 101, 102, 104, 105, 106, 107, 109, 110, 111, 113, 114, 115, 117, 118, 120, 121, 123,
     124, 126, 127, 129, 130, 132, 133, 135, 137, 138, 140, 142, 143, 145, 147, 149, 150, 152,
     154, 156, 158, 160, 162, 164, 165, 167, 169, 172, 174, 176, 178, 180, 182, 184, 187, 189,
     191, 193, 196, 198, 200, 203, 205, 208, 210, 213, 215, 218, 221, 223, 226, 229, 232, 234,
     237, 240, 243, 246, 249, 252, 255, 258, 261, 264, 267, 271, 274, 277, 280, 284, 287, 291,
     294, 298, 301, 305, 309, 312, 316, 320, 324, 328, 332, 336, 340, 344, 348, 352, 357, 361,
     365, 370, 374, 379, 383, 388, 392, 397, 402, 407, 412, 417, 422, 427, 432, 437, 442, 448,
     453, 459, 464, 470, 475, 481, 487, 493, 499, 505, 511, 517, 523, 530, 536, 542, 549, 556,
     562, 569, 576, 583, 590, 597, 604, 612, 619, 626, 634, 642, 649, 657, 665, 673, 681, 690,
     698, 706, 715, 723, 732, 741, 750, 759, 768, 777, 787, 796, 806, 816, 825, 835, 845, 856,
     866, 876, 887, 898, 909, 920, 931, 942, 953, 965, 976, 988]"

text \<open>The dictionary \<open>_E\<close>; every key of the enumeration has an entry.\<close>

fun E_dict :: "ESeries \<Rightarrow> int list" where
  "E_dict E3 = E3_values"
| "E_dict E6 = E6_values"
| "E_dict E12 = E12_values"
| "E_dict E24 = E24_values"
| "E_dict E48 = E48_values"
| "E_dict E96 = E96_values"
| "E_dict E192 = E192_values"

definition series :: "ESeries \<Rightarrow> int list" where
  "series series_key = E_dict series_key"

fun tolerance :: "ESeries \<Rightarrow> real" where
  "tolerance E3 = 4 / 10"
| "tolerance E6 = 2 / 10"
| "tolerance E12 = 1 / 10"
| "tolerance E24 = 5 / 100"
| "tolerance E48 = 2 / 100"
| "tolerance E96 = 1 / 100"
| "tolerance E192 = 5 / 1000"

definition LOG10_MANTISSA_E :: "ESeries \<Rightarrow> real list" where
  "LOG10_MANTISSA_E num = map (\<lambda>x. frac (log 10 (of_int x))) (E_dict num)"

definition GEOMETRIC_SCALE_E :: "ESeries \<Rightarrow> real" where
  "GEOMETRIC_SCALE_E num =
     Max (set (map (\<lambda>(a, b). binary64 (of_int b / of_int a))
                 (zip (E_dict num) (tl (E_dict num)))))"

subsection \<open>Binary search (\<open>bisect\<close>)\<close>

function bisect_left_loop :: "real list \<Rightarrow> real \<Rightarrow> nat \<Rightarrow> nat \<Rightarrow> nat" where
  "bisect_left_loop a x lo hi =
     (if lo < hi then
        (let mid = (lo + hi) div 2 in
         if a ! mid < x then bisect_left_loop a x (mid + 1) hi
         else bisect_left_loop a x lo mid)
      else lo)"
  by pat_completeness auto
termination
  by (relation "measure (\<lambda>(a, x, lo, hi). hi - lo)") auto

declare bisect_left_loop.simps [simp del]

definition bisect_left :: "real list \<Rightarrow> real \<Rightarrow> nat" where
  "bisect_left a x = bisect_left_loop a x 0 (length a)"

function bisect_right_loop :: "real list \<Rightarrow> real \<Rightarrow> nat \<Rightarrow> nat \<Rightarrow> nat" where
  "bisect_right_loop a x lo hi =
     (if lo < hi then
        (let mid = (lo + hi) div 2 in
         if x < a ! mid then bisect_right_loop a x lo mid
         else bisect_right_loop a x (mid + 1) hi)
      else lo)"
  by pat_completeness auto
termination
  by (relation "measure (\<lambda>(a, x, lo, hi). hi - lo)") auto

declare bisect_right_loop.simps [simp del]

definition bisect_right :: "real list \<Rightarrow> real \<Rightarrow> nat" where
  "bisect_right a x = bisect_right_loop a x 0 (length a)"

subsection \<open>Rounding to significant figures\<close>

text \<open>
  Python's \<open>round(x, ndigits)\<close>: the float nearest to the multiple of \<open>10 ** -ndigits\<close>
  that is nearest to \<open>x\<close>, ties to even.
\<close>

definition py_round :: "real \<Rightarrow> int \<Rightarrow> real" where
  "py_round x ndigits =
     binary64 (of_int (round_half_even (x * 10 powr of_int ndigits)) / 10 powr of_int ndigits)"

text \<open>
  \<open>_round_sig\<close>. On an infinity \<open>log10\<close> is infinite and \<open>floor\<close> raises OverflowError;
  on a NaN \<open>floor\<close> raises ValueError.
\<close>

fun round_sig :: "pyfloat \<Rightarrow> int \<Rightarrow> error + real" where
  "round_sig (Finite x) figures =
     Inr (if x = 0 then 0 else py_round x (figures - \<lfloor>log 10 \<bar>x\<bar>\<rfloor> - 1))"
| "round_sig PosInf figures = Inl OverflowError"
| "round_sig NegInf figures = Inl OverflowError"
| "round_sig NaN figures = Inl (ValueError NaNToInteger)"

subsection \<open>The range enumerator \<open>erange\<close>\<close>

definition decade_mantissa :: "real \<Rightarrow> int \<times> real" where
  "decade_mantissa v = (\<lfloor>v\<rfloor>, frac v)"

definition is_integral :: "real \<Rightarrow> bool" where
  "is_integral f = (f = of_int \<lfloor>f\<rfloor>)"

definition try_integral :: "real \<Rightarrow> error + int" where
  "try_integral f = (if \<not> is_integral f then Inl (ValueError NotIntegral) else Inr \<lfloor>f\<rfloor>)"

text \<open>
  A generator is modelled by what it does when it is run to its end: the list of the
  values it yields, and the exception that stops it, if one does. Each turn of the inner
  loop raises, yields nothing, or yields one value.
\<close>

fun generate :: "(error + real option) list \<Rightarrow> real list \<times> error option" where
  "generate [] = ([], None)"
| "generate (Inl e # rest) = ([], Some e)"
| "generate (Inr None # rest) = generate rest"
| "generate (Inr (Some v) # rest) = (v # fst (generate rest), snd (generate rest))"

definition erange_item :: "int list \<Rightarrow> int \<Rightarrow> real \<Rightarrow> real \<Rightarrow> int \<times> nat \<Rightarrow> error + real option" where
  "erange_item series_values series_decade start stop p =
     (let found = series_values ! snd p;
          scale_exponent = fst p - series_decade in
      case math_pow10 scale_exponent of
        Inl e \<Rightarrow> Inl e
      | Inr pw \<Rightarrow>
          (case round_sig (py_mul (of_int found) pw) (series_decade + 1) of
             Inl e \<Rightarrow> Inl e
           | Inr rounded_result \<Rightarrow>
               Inr (if start \<le> rounded_result \<and> rounded_result \<le> stop
                    then Some rounded_result else None)))"

text \<open>The pairs (decade, index) that the two nested loops visit, in order.\<close>

definition erange_positions :: "nat \<Rightarrow> int \<Rightarrow> nat \<Rightarrow> int \<Rightarrow> nat \<Rightarrow> (int \<times> nat) list" where
  "erange_positions n start_decade start_index stop_decade stop_index =
     concat (map (\<lambda>decade.
                map (Pair decade)
                  [(if decade = start_decade then start_index else 0) ..<
                   (if decade = stop_decade then stop_index else n)])
             [start_decade .. stop_decade])"

definition erange_body :: "ESeries \<Rightarrow> real \<Rightarrow> real \<Rightarrow> real list \<times> error option" where
  "erange_body series_key start stop =
     (let series_values = series series_key;
          series_log = LOG10_MANTISSA_E series_key;
          epsilon = (last series_log - series_log ! (length series_log - 2)) / 2;
          start_log = log 10 start - epsilon;
          start_index0 = bisect_left series_log (snd (decade_mantissa start_log));
          start_decade = (if start_index0 = length series_log
                          then fst (decade_mantissa start_log) + 1
                          else fst (decade_mantissa start_log));
          start_index = (if start_index0 = length series_log then 0 else start_index0);
          stop_log = log 10 stop + epsilon;
          stop_decade = fst (decade_mantissa stop_log);
          stop_index = bisect_right series_log (snd (decade_mantissa stop_log))
      in if stop_index = 0 then ([], Some AssertionError)
         else
           (case try_integral (log 10 (of_int (series_values ! 0))) of
              Inl e \<Rightarrow> ([], Some e)
            | Inr series_decade \<Rightarrow>
                generate (map (erange_item series_values series_decade start stop)
                  (erange_positions (length series_log)
                     start_decade start_index stop_decade stop_index))))"

fun erange :: "ESeries \<Rightarrow> pyfloat \<Rightarrow> pyfloat \<Rightarrow> real list \<times> error option" where
  "erange series_key (Finite start) (Finite stop) =
     (if start < MINIMUM_E_VALUE then
        ([], Some (ValueError (TooSmall (Finite stop) StartBound)))
      else if stop < MINIMUM_E_VALUE then
        ([], Some (ValueError (TooSmall (Finite stop) StopBound)))
      else if \<not> start \<le> stop then
        ([], Some (ValueError (StartAfterStop (Finite start) (Finite stop))))
      else erange_body series_key start stop)"
| "erange series_key (Finite start) stop = ([], Some (ValueError (NotFinite StopBound stop)))"
| "erange series_key start stop = ([], Some (ValueError (NotFinite StartBound start)))"

subsection \<open>Generator objects\<close>

text \<open>
  \<open>erange\<close> is a generator function: a call runs none of its body, it creates a
  generator object, and each \<open>next\<close> on that object runs the body up to the following
  \<open>yield\<close>. The state of a generator object is the list of the turns it has still to
  run: the failed check of the arguments, or the turns of the inner loop. The store holds
  the generator objects created so far; the address of an object is its index in the store.
\<close>

definition erange_body_turns :: "ESeries \<Rightarrow> real \<Rightarrow> real \<Rightarrow> (error + real option) list" where
  "erange_body_turns series_key start stop =
     (let series_values = series series_key;
          series_log = LOG10_MANTISSA_E series_key;
          epsilon = (last series_log - series_log ! (length series_log - 2)) / 2;
          start_log = log 10 start - epsilon;
          start_index0 = bisect_left series_log (snd (decade_mantissa start_log));
          start_decade = (if start_index0 = length series_log
                          then fst (decade_mantissa start_log) + 1
                          else fst (decade_mantissa start_log));
          start_index = (if start_index0 = length series_log then 0 else start_index0);
          stop_log = log 10 stop + epsilon;
          stop_decade = fst (decade_mantissa stop_log);
          stop_index = bisect_right series_log (snd (decade_mantissa stop_log))
      in if stop_index = 0 then [Inl AssertionError]
         else
           (case try_integral (log 10 (of_int (series_values ! 0))) of
              Inl e \<Rightarrow> [Inl e]
            | Inr series_decade \<Rightarrow>
                map (erange_item series_values series_decade start stop)
                  (erange_positions (length series_log)
                     start_decade start_index stop_decade stop_index)))"

fun erange_turns :: "ESeries \<Rightarrow> pyfloat \<Rightarrow> pyfloat \<Rightarrow> (error + real option) list" where
  "erange_turns series_key (Finite start) (Finite stop) =
     (if start < MINIMUM_E_VALUE then
        [Inl (ValueError (TooSmall (Finite stop) StartBound))]
      else if stop < MINIMUM_E_VALUE then
        [Inl (ValueError (TooSmall (Finite stop) StopBound))]
      else if \<not> start \<le> stop then
        [Inl (ValueError (StartAfterStop (Finite start) (Finite stop)))]
      else erange_body_turns series_key start stop)"
| "erange_turns series_key (Finite start) stop = [Inl (ValueError (NotFinite StopBound stop))]"
| "erange_turns series_key start stop = [Inl (ValueError (NotFinite StartBound start))]"

type_synonym store = "(error + real option) list list"

definition call_erange :: "store \<Rightarrow> ESeries \<Rightarrow> pyfloat \<Rightarrow> pyfloat \<Rightarrow> nat \<times> store" where
  "call_erange s series_key start stop = (length s, s @ [erange_turns series_key start stop])"

datatype outcome = Yielded real | Raised error | StopIteration

text \<open>One \<open>next\<close> on the turns still to run: the outcome, and the turns left after it.\<close>

fun run_to_yield :: "(error + real option) list \<Rightarrow> outcome \<times> (error + real option) list" where
  "run_to_yield [] = (StopIteration, [])"
| "run_to_yield (Inl e # rest) = (Raised e, [])"
| "run_to_yield (Inr None # rest) = run_to_yield rest"
| "run_to_yield (Inr (Some v) # rest) = (Yielded v, rest)"

definition next_value :: "store \<Rightarrow> nat \<Rightarrow> outcome \<times> store" where
  "next_value s g = (fst (run_to_yield (s ! g)), s[g := snd (run_to_yield (s ! g))])"

text \<open>\<open>n\<close> times \<open>next\<close> on the object \<open>g\<close>, and the object \<open>g\<close> run to its end.\<close>

fun advance :: "nat \<Rightarrow> store \<Rightarrow> nat \<Rightarrow> store" where
  "advance 0 s g = s"
| "advance (Suc n) s g = advance n (snd (next_value s g)) g"

definition drain :: "store \<Rightarrow> nat \<Rightarrow> real list \<times> error option" where
  "drain s g = generate (s ! g)"

text \<open>
  A first call whose generator is advanced \<open>n\<close> times, then a second call with the same
  arguments, whose generator is run to its end: what the second generator yields.
\<close>

definition second_call :: "store \<Rightarrow> nat \<Rightarrow> ESeries \<Rightarrow> pyfloat \<Rightarrow> pyfloat \<Rightarrow> real list \<times> error option" where
  "second_call s n series_key start stop =
     (let first = call_erange s series_key start stop;
          s' = advance n (snd first) (fst first);
          second = call_erange s' series_key start stop
      in drain (snd second) (fst second))"

subsection \<open>Nearest-value search\<close>

text \<open>
  \<open>_nearest_n\<close>: the indexes of the candidates, stably sorted by distance to the value;
  the first \<open>n\<close> of them, as candidates, sorted.
\<close>

definition nearest_n :: "real list \<Rightarrow> real \<Rightarrow> nat \<Rightarrow> real list" where
  "nearest_n candidates v n =
     (let abs_deltas = map (\<lambda>c. \<bar>binary64 (c - v)\<bar>) candidates;
          indexes = map fst (sort_key snd (enumerate 0 abs_deltas))
      in sort (map (\<lambda>i. candidates ! i) (take n indexes)))"

definition find_nearest_few :: "ESeries \<Rightarrow> real \<Rightarrow> int \<Rightarrow> error + real list" where
  "find_nearest_few series_key v num =
     (if num \<notin> {1, 2, 3} then Inl (ValueError (BadNum num))
      else
        (let start = Finite (binary64 (v / binary64 (GEOMETRIC_SCALE_E series_key powr (3 / 2))));
             stop = py_mul v (binary64 (GEOMETRIC_SCALE_E series_key powr (3 / 2)))
         in case erange series_key start stop of
              (candidates, Some e) \<Rightarrow> Inl e
            | (candidates, None) \<Rightarrow> Inr (nearest_n candidates v (nat num))))"

text \<open>The scans of the directional searches; \<open>assert False\<close> ends a scan that finds nothing.\<close>

fun first_candidate :: "(real \<Rightarrow> bool) \<Rightarrow> real list \<Rightarrow> error + real" where
  "first_candidate P [] = Inl AssertionError"
| "first_candidate P (candidate # rest) =
     (if P candidate then Inr candidate else first_candidate P rest)"

definition find_greater_than_or_equal :: "ESeries \<Rightarrow> real \<Rightarrow> error + real" where
  "find_greater_than_or_equal series_key v =
     (case find_nearest_few series_key v 3 of
        Inl e \<Rightarrow> Inl e
      | Inr candidates \<Rightarrow> first_candidate (\<lambda>candidate. v \<le> candidate) candidates)"

definition find_greater_than :: "ESeries \<Rightarrow> real \<Rightarrow> error + real" where
  "find_greater_than series_key v =
     (case find_nearest_few series_key v 3 of
        Inl e \<Rightarrow> Inl e
      | Inr candidates \<Rightarrow> first_candidate (\<lambda>candidate. v < candidate) candidates)"

definition find_less_than_or_equal :: "ESeries \<Rightarrow> real \<Rightarrow> error + real" where
  "find_less_than_or_equal series_key v =
     (case find_nearest_few series_key v 3 of
        Inl e \<Rightarrow> Inl e
      | Inr candidates \<Rightarrow> first_candidate (\<lambda>candidate. candidate \<le> v) (rev candidates))"

definition find_less_than :: "ESeries \<Rightarrow> real \<Rightarrow> error + real" where
  "find_less_than series_key v =
     (case find_nearest_few series_key v 3 of
        Inl e \<Rightarrow> Inl e
      | Inr candidates \<Rightarrow> first_candidate (\<lambda>candidate. candidate < v) (rev candidates))"

definition find_nearest :: "ESeries \<Rightarrow> real \<Rightarrow> error + real" where
  "find_nearest series_key v =
     (case find_nearest_few series_key v 1 of
        Inl e \<Rightarrow> Inl e
      | Inr [] \<Rightarrow> Inl IndexError
      | Inr (c # rest) \<Rightarrow> Inr c)"

section \<open>Standard values\<close>

text \<open>
  The first entry of a table is a power of ten; its exponent is the decade of the table.
  The standard value of decade \<open>d\<close> at index \<open>i\<close> is the table entry scaled into
  the decade \<open>d\<close>: a number from \<open>10 ^ d\<close> up to, not including, \<open>10 ^ (d + 1)\<close>.
\<close>

definition base_decade :: "ESeries \<Rightarrow> int" where
  "base_decade k = \<lfloor>log 10 (of_int (E_dict k ! 0))\<rfloor>"

definition value_at :: "ESeries \<Rightarrow> int \<Rightarrow> nat \<Rightarrow> real" where
  "value_at k d i = of_int (E_dict k ! i) * 10 powr of_int (d - base_decade k)"

definition standard_value :: "ESeries \<Rightarrow> real \<Rightarrow> bool" where
  "standard_value k x = (\<exists>d i. i < length (E_dict k) \<and> x = value_at k d i)"

text \<open>The widening of the range, as \<open>erange\<close> computes it from the mantissa table.\<close>

definition epsilon_of :: "ESeries \<Rightarrow> real" where
  "epsilon_of k =
     (last (LOG10_MANTISSA_E k) - LOG10_MANTISSA_E k ! (length (LOG10_MANTISSA_E k) - 2)) / 2"

text \<open>
  The position (decade, index) at which the enumeration of \<open>erange\<close> starts, and the
  position before which it stops, as \<open>erange\<close> computes them.
\<close>

definition start_position :: "ESeries \<Rightarrow> real \<Rightarrow> int \<times> nat" where
  "start_position k start =
     (let series_log = LOG10_MANTISSA_E k;
          start_log = log 10 start - epsilon_of k;
          start_index0 = bisect_left series_log (snd (decade_mantissa start_log))
      in (if start_index0 = length series_log
          then fst (decade_mantissa start_log) + 1
          else fst (decade_mantissa start_log),
          if start_index0 = length series_log then 0 else start_index0))"

definition stop_position :: "ESeries \<Rightarrow> real \<Rightarrow> int \<times> nat" where
  "stop_position k stop =
     (let series_log = LOG10_MANTISSA_E k;
          stop_log = log 10 stop + epsilon_of k
      in (fst (decade_mantissa stop_log),
          bisect_right series_log (snd (decade_mantissa stop_log))))"

definition position_value :: "ESeries \<Rightarrow> int \<times> nat \<Rightarrow> real" where
  "position_value k p = value_at k (fst p) (snd p)"

text \<open>The positions visited for a range, and the standard values of a range, in order.\<close>

definition range_positions :: "ESeries \<Rightarrow> real \<Rightarrow> real \<Rightarrow> (int \<times> nat) list" where
  "range_positions k start stop =
     erange_positions (length (E_dict k))
       (fst (start_position k start)) (snd (start_position k start))
       (fst (stop_position k stop)) (snd (stop_position k stop))"

text \<open>The float that a turn of the loop at a position yields, and the turns that overflow.\<close>

definition yield_value :: "ESeries \<Rightarrow> int \<times> nat \<Rightarrow> real" where
  "yield_value k p = binary64 (position_value k p)"

definition overflows :: "ESeries \<Rightarrow> int \<times> nat \<Rightarrow> bool" where
  "overflows k p =
     (float_overflow \<le> 10 powr of_int (fst p - base_decade k) \<or>
      float_overflow \<le>
        of_int (E_dict k ! snd p) * binary64 (10 powr of_int (fst p - base_decade k)))"

definition values_in_range :: "ESeries \<Rightarrow> real \<Rightarrow> real \<Rightarrow> real list" where
  "values_in_range k start stop =
     map (yield_value k)
       (filter (\<lambda>p. start \<le> yield_value k p \<and> yield_value k p \<le> stop)
          (range_positions k start stop))"

text \<open>
  The standard values of the decades \<open>dlo\<close> to \<open>dhi\<close>, as floats, that lie in a range,
  in order.
\<close>

definition decade_values :: "ESeries \<Rightarrow> int \<Rightarrow> real list" where
  "decade_values k d =
     map (\<lambda>x. binary64 (of_int x * 10 powr of_int (d - base_decade k))) (E_dict k)"

definition standard_values_between :: "ESeries \<Rightarrow> int \<Rightarrow> int \<Rightarrow> real \<Rightarrow> real \<Rightarrow> real list" where
  "standard_values_between k dlo dhi a b =
     filter (\<lambda>v. a \<le> v \<and> v \<le> b) (concat (map (decade_values k) [dlo .. dhi]))"

text \<open>The factor by which \<open>find_nearest_few\<close> widens a value into its search window.\<close>

definition search_factor :: "ESeries \<Rightarrow> real" where
  "search_factor k = binary64 (GEOMETRIC_SCALE_E k powr (3 / 2))"

text \<open>The largest ratio of neighbouring table entries, before it is rounded to a float.\<close>

definition exact_scale :: "ESeries \<Rightarrow> real" where
  "exact_scale k =
     Max (set (map (\<lambda>(a, b). of_int b / of_int a) (zip (E_dict k) (tl (E_dict k)))))"

section \<open>Checks of the range\<close>

text \<open>
  C8: an invalid range is reported with a message that names the offending bound's value;
  a start value below the minimum should be named in its message. The code formats the
  stop value into that message: for the range from \<open>1e-300\<close> to \<open>1\<close> the message reads
  "1 is too small. The start value must greater than or equal to 1e-200".
\<close>

theorem erange_too_small_start_names_stop:
  "erange E12 (Finite (1 / 10 ^ 300)) (Finite 1) =
     ([], Some (ValueError (TooSmall (Finite 1) StartBound)))"
  by (simp add: MINIMUM_E_VALUE_def field_simps)

section \<open>Binary search on a sorted list\<close>

lemma bisect_left_loop_spec:
  assumes "sorted a" "lo \<le> hi" "hi \<le> length a"
    "\<forall>j<lo. a ! j < x" "\<forall>j. hi \<le> j \<and> j < length a \<longrightarrow> x \<le> a ! j"
  shows "lo \<le> bisect_left_loop a x lo hi \<and> bisect_left_loop a x lo hi \<le> hi
       \<and> (\<forall>j<bisect_left_loop a x lo hi. a ! j < x)
       \<and> (\<forall>j. bisect_left_loop a x lo hi \<le> j \<and> j < length a \<longrightarrow> x \<le> a ! j)"
  using assms
proof (induction a x lo hi rule: bisect_left_loop.induct)
  case (1 a x lo hi)
  show ?case
  proof (cases "lo < hi")
    case False
    then have "bisect_left_loop a x lo hi = lo"
      by (subst bisect_left_loop.simps) simp
    with False "1.prems" show ?thesis by auto
  next
    case True
    define mid where "mid = (lo + hi) div 2"
    have mid: "lo \<le> mid" "mid < hi" using True by (auto simp: mid_def)
    show ?thesis
    proof (cases "a ! mid < x")
      case lt: True
      have below: "\<forall>j<mid + 1. a ! j < x"
      proof (intro allI impI)
        fix j assume "j < mid + 1"
        then have "j \<le> mid" by simp
        then have "a ! j \<le> a ! mid" using "1.prems"(1,3) mid
          by (intro sorted_nth_mono) auto
        then show "a ! j < x" using lt by simp
      qed
      have eq: "bisect_left_loop a x lo hi = bisect_left_loop a x (mid + 1) hi"
        using True lt by (subst bisect_left_loop.simps) (simp add: mid_def Let_def)
      have "mid + 1 \<le> bisect_left_loop a x (mid + 1) hi \<and> bisect_left_loop a x (mid + 1) hi \<le> hi
       \<and> (\<forall>j<bisect_left_loop a x (mid + 1) hi. a ! j < x)
       \<and> (\<forall>j. bisect_left_loop a x (mid + 1) hi \<le> j \<and> j < length a \<longrightarrow> x \<le> a ! j)"
        using "1.IH"(1)[OF True mid_def lt "1.prems"(1) _ "1.prems"(3) below "1.prems"(5)] mid
        by simp
      then show ?thesis using eq mid by simp
    next
      case ge: False
      have above: "\<forall>j. mid \<le> j \<and> j < length a \<longrightarrow> x \<le> a ! j"
      proof (intro allI impI)
        fix j assume "mid \<le> j \<and> j < length a"
        then have "a ! mid \<le> a ! j" using "1.prems"(1)
          by (intro sorted_nth_mono) auto
        then show "x \<le> a ! j" using ge by simp
      qed
      have eq: "bisect_left_loop a x lo hi = bisect_left_loop a x lo mid"
        using True ge by (subst bisect_left_loop.simps) (simp add: mid_def Let_def)
      have "lo \<le> bisect_left_loop a x lo mid \<and> bisect_left_loop a x lo mid \<le> mid
       \<and> (\<forall>j<bisect_left_loop a x lo mid. a ! j < x)
       \<and> (\<forall>j. bisect_left_loop a x lo mid \<le> j \<and> j < length a \<longrightarrow> x \<le> a ! j)"
        using "1.IH"(2)[OF True mid_def ge "1.prems"(1) _ _ "1.prems"(4) above] mid "1.prems"(3)
        by simp
      then show ?thesis using eq mid by simp
    qed
  qed
qed

lemma bisect_right_loop_spec:
  assumes "sorted a" "lo \<le> hi" "hi \<le> length a"
    "\<forall>j<lo. a ! j \<le> x" "\<forall>j. hi \<le> j \<and> j < length a \<longrightarrow> x < a ! j"
  shows "lo \<le> bisect_right_loop a x lo hi \<and> bisect_right_loop a x lo hi \<le> hi
       \<and> (\<forall>j<bisect_right_loop a x lo hi. a ! j \<le> x)
       \<and> (\<forall>j. bisect_right_loop a x lo hi \<le> j \<and> j < length a \<longrightarrow> x < a ! j)"
  using assms
proof (induction a x lo hi rule: bisect_right_loop.induct)
  case (1 a x lo hi)
  show ?case
  proof (cases "lo < hi")
    case False
    then have "bisect_right_loop a x lo hi = lo"
      by (subst bisect_right_loop.simps) simp
    with False "1.prems" show ?thesis by auto
  next
    case True
    define mid where "mid = (lo + hi) div 2"
    have mid: "lo \<le> mid" "mid < hi" using True by (auto simp: mid_def)
    show ?thesis
    proof (cases "x < a ! mid")
      case lt: True
      have above: "\<forall>j. mid \<le> j \<and> j < length a \<longrightarrow> x < a ! j"
      proof (intro allI impI)
        fix j assume "mid \<le> j \<and> j < length a"
        then have "a ! mid \<le> a ! j" using "1.prems"(1)
          by (intro sorted_nth_mono) auto
        then show "x < a ! j" using lt by simp
      qed
      have eq: "bisect_right_loop a x lo hi = bisect_right_loop a x lo mid"
        using True lt by (subst bisect_right_loop.simps) (simp add: mid_def Let_def)
      have "lo \<le> bisect_right_loop a x lo mid \<and> bisect_right_loop a x lo mid \<le> mid
       \<and> (\<forall>j<bisect_right_loop a x lo mid. a ! j \<le> x)
       \<and> (\<forall>j. bisect_right_loop a x lo mid \<le> j \<and> j < length a \<longrightarrow> x < a ! j)"
        using "1.IH"(1)[OF True mid_def lt "1.prems"(1) _ _ "1.prems"(4) above] mid "1.prems"(3)
        by simp
      then show ?thesis using eq mid by simp
    next
      case ge: False
      have below: "\<forall>j<mid + 1. a ! j \<le> x"
      proof (intro allI impI)
        fix j assume "j < mid + 1"
        then have "j \<le> mid" by simp
        then have "a ! j \<le> a ! mid" using "1.prems"(1,3) mid
          by (intro sorted_nth_mono) auto
        then show "a ! j \<le> x" using ge by simp
      qed
      have eq: "bisect_right_loop a x lo hi = bisect_right_loop a x (mid + 1) hi"
        using True ge by (subst bisect_right_loop.simps) (simp add: mid_def Let_def)
      have "mid + 1 \<le> bisect_right_loop a x (mid + 1) hi \<and> bisect_right_loop a x (mid + 1) hi \<le> hi
       \<and> (\<forall>j<bisect_right_loop a x (mid + 1) hi. a ! j \<le> x)
       \<and> (\<forall>j. bisect_right_loop a x (mid + 1) hi \<le> j \<and> j < length a \<longrightarrow> x < a ! j)"
        using "1.IH"(2)[OF True mid_def ge "1.prems"(1) _ "1.prems"(3) below "1.prems"(5)] mid
        by simp
      then show ?thesis using eq mid by simp
    qed
  qed
qed

lemma bisect_left_spec:
  assumes "sorted a"
  shows "bisect_left a x \<le> length a"
    and "j < bisect_left a x \<Longrightarrow> a ! j < x"
    and "bisect_left a x \<le> j \<Longrightarrow> j < length a \<Longrightarrow> x \<le> a ! j"
  using bisect_left_loop_spec[OF assms, of 0 "length a" x]
  by (auto simp: bisect_left_def)

lemma bisect_right_spec:
  assumes "sorted a"
  shows "bisect_right a x \<le> length a"
    and "j < bisect_right a x \<Longrightarrow> a ! j \<le> x"
    and "bisect_right a x \<le> j \<Longrightarrow> j < length a \<Longrightarrow> x < a ! j"
  using bisect_right_loop_spec[OF assms, of 0 "length a" x]
  by (auto simp: bisect_right_def)

section \<open>Facts about the tables\<close>

lemmas table_defs =
  E3_values_def E6_values_def E12_values_def E24_values_def
  E48_values_def E96_values_def E192_values_def

lemma table_length: "length (E_dict k) = ESeries_value k"
  by (cases k) (simp_all add: table_defs)

lemma table_length_ge: "3 \<le> length (E_dict k)"
  using table_length[of k] by (cases k) simp_all

lemma log10_100: "log 10 (100::real) = 2"
  using log_pow_cancel[of "10::real" 2] by simp

lemma base_decade_eq:
  "base_decade k = (if k = E3 \<or> k = E6 \<or> k = E12 \<or> k = E24 then 1 else 2)"
  by (cases k) (simp_all add: base_decade_def table_defs log10_100)

lemma table_sorted: "sorted_wrt (<) (E_dict k)"
  by (cases k) (simp_all only: E_dict.simps table_defs, code_simp+)

lemma table_first: "E_dict k ! 0 = 10 ^ nat (base_decade k)"
  by (cases k) (simp_all add: base_decade_eq table_defs)

lemma table_bounds:
  "\<forall>x\<in>set (E_dict k). 10 ^ nat (base_decade k) \<le> x \<and> x < 10 * 10 ^ nat (base_decade k)"
  by (cases k) (simp_all add: base_decade_eq table_defs)

lemma base_decade_nonneg: "0 \<le> base_decade k"
  by (simp add: base_decade_eq)

lemma powr_base_decade: "10 powr of_int (base_decade k) = (10::real) ^ nat (base_decade k)"
  using base_decade_nonneg[of k] by (simp add: powr_real_of_int)

lemma entry_bounds:
  assumes "i < length (E_dict k)"
  shows "(10::real) powr of_int (base_decade k) \<le> of_int (E_dict k ! i)"
    and "(of_int (E_dict k ! i) :: real) < 10 * 10 powr of_int (base_decade k)"
proof -
  have mem: "E_dict k ! i \<in> set (E_dict k)" using assms by simp
  have a: "10 ^ nat (base_decade k) \<le> E_dict k ! i"
    and b: "E_dict k ! i < 10 * 10 ^ nat (base_decade k)"
    using table_bounds[of k] mem by blast+
  have "(of_int (10 ^ nat (base_decade k)) :: real) \<le> of_int (E_dict k ! i)"
    using a by (simp only: of_int_le_iff)
  then show "(10::real) powr of_int (base_decade k) \<le> of_int (E_dict k ! i)"
    by (simp add: powr_base_decade)
  have "(of_int (E_dict k ! i) :: real) < of_int (10 * 10 ^ nat (base_decade k))"
    using b by (simp only: of_int_less_iff)
  then show "(of_int (E_dict k ! i) :: real) < 10 * 10 powr of_int (base_decade k)"
    by (simp add: powr_base_decade)
qed

lemma entry_pos:
  assumes "i < length (E_dict k)"
  shows "(0::real) < of_int (E_dict k ! i)"
proof -
  have "(0::real) < 10 powr of_int (base_decade k)" by simp
  then show ?thesis using entry_bounds(1)[OF assms] by (rule less_le_trans)
qed

lemma floor_log_entry:
  assumes "i < length (E_dict k)"
  shows "\<lfloor>log 10 (of_int (E_dict k ! i))\<rfloor> = base_decade k"
proof -
  have "(10::real) powr (of_int (base_decade k) + 1) = 10 * 10 powr of_int (base_decade k)"
    by (simp add: powr_add)
  then show ?thesis
    using entry_bounds[OF assms] entry_pos[OF assms]
    by (simp add: floor_log_eq_powr_iff)
qed

lemma mantissa_length: "length (LOG10_MANTISSA_E k) = length (E_dict k)"
  by (simp add: LOG10_MANTISSA_E_def)

lemma mantissa_nth:
  assumes "i < length (E_dict k)"
  shows "LOG10_MANTISSA_E k ! i = log 10 (of_int (E_dict k ! i)) - of_int (base_decade k)"
  using assms floor_log_entry[OF assms] by (simp add: LOG10_MANTISSA_E_def frac_def)

lemma mantissa_range:
  assumes "i < length (E_dict k)"
  shows "0 \<le> LOG10_MANTISSA_E k ! i" and "LOG10_MANTISSA_E k ! i < 1"
  using assms by (simp_all add: LOG10_MANTISSA_E_def frac_lt_1)

lemma mantissa_first: "LOG10_MANTISSA_E k ! 0 = 0"
proof -
  have "0 < length (E_dict k)" using table_length_ge[of k] by (cases "E_dict k") simp_all
  then have "LOG10_MANTISSA_E k ! 0 = log 10 (10 ^ nat (base_decade k)) - of_int (base_decade k)"
    by (simp add: mantissa_nth table_first)
  then show ?thesis using base_decade_nonneg[of k] by simp
qed

lemma mantissa_less:
  assumes "i < j" "j < length (E_dict k)"
  shows "LOG10_MANTISSA_E k ! i < LOG10_MANTISSA_E k ! j"
proof -
  have "E_dict k ! i < E_dict k ! j"
    using table_sorted[of k] assms by (simp add: sorted_wrt_iff_nth_less)
  then have "(of_int (E_dict k ! i) :: real) < of_int (E_dict k ! j)" by simp
  then have "log 10 (of_int (E_dict k ! i)) < log 10 (of_int (E_dict k ! j))"
    using entry_pos[of i k] entry_pos[of j k] assms by simp
  then show ?thesis using assms by (simp add: mantissa_nth)
qed

lemma mantissa_sorted: "sorted (LOG10_MANTISSA_E k)"
proof -
  have "sorted_wrt (<) (LOG10_MANTISSA_E k)"
    by (simp add: sorted_wrt_iff_nth_less mantissa_length mantissa_less)
  then show ?thesis by (simp add: strict_sorted_iff)
qed

lemma mantissa_less_iff:
  assumes "i < length (E_dict k)" "j < length (E_dict k)"
  shows "LOG10_MANTISSA_E k ! i < LOG10_MANTISSA_E k ! j \<longleftrightarrow> i < j"
proof
  assume lt: "LOG10_MANTISSA_E k ! i < LOG10_MANTISSA_E k ! j"
  show "i < j"
  proof (rule ccontr)
    assume "\<not> i < j"
    then have "j = i \<or> j < i" by auto
    then show False using lt mantissa_less[of j i k] assms by auto
  qed
qed (simp add: mantissa_less assms)

section \<open>Standard values, their logarithms and their order\<close>

lemma value_at_pos: "i < length (E_dict k) \<Longrightarrow> 0 < value_at k d i"
  unfolding value_at_def by (intro mult_pos_pos entry_pos) simp_all

lemma log_value_at:
  assumes "i < length (E_dict k)"
  shows "log 10 (value_at k d i) = of_int d + LOG10_MANTISSA_E k ! i"
proof -
  have "log 10 (value_at k d i)
        = log 10 (of_int (E_dict k ! i)) + log 10 (10 powr of_int (d - base_decade k))"
    unfolding value_at_def using entry_pos[OF assms] by (intro log_mult_pos) simp_all
  also have "log 10 (10 powr of_int (d - base_decade k)) = of_int (d - base_decade k)"
    by (simp add: log_powr)
  finally show ?thesis using assms by (simp add: mantissa_nth)
qed

lemma floor_log_value_at:
  assumes "i < length (E_dict k)"
  shows "\<lfloor>log 10 (value_at k d i)\<rfloor> = d"
proof -
  have "of_int d \<le> log 10 (value_at k d i)" "log 10 (value_at k d i) < of_int d + 1"
    using mantissa_range[OF assms] by (simp_all add: log_value_at[OF assms])
  then show ?thesis by (simp add: floor_unique)
qed

lemma value_at_less_iff:
  assumes "i < length (E_dict k)" "j < length (E_dict k)"
  shows "value_at k d i < value_at k e j \<longleftrightarrow> d < e \<or> (d = e \<and> i < j)"
proof -
  have "value_at k d i < value_at k e j \<longleftrightarrow> log 10 (value_at k d i) < log 10 (value_at k e j)"
    using value_at_pos[OF assms(1)] value_at_pos[OF assms(2)] by simp
  also have "\<dots> \<longleftrightarrow> of_int d + LOG10_MANTISSA_E k ! i < of_int e + LOG10_MANTISSA_E k ! j"
    by (simp add: log_value_at assms)
  also have "\<dots> \<longleftrightarrow> d < e \<or> (d = e \<and> i < j)"
  proof (cases "d = e")
    case True
    then show ?thesis by (simp add: mantissa_less_iff assms)
  next
    case False
    have r: "0 \<le> LOG10_MANTISSA_E k ! i" "LOG10_MANTISSA_E k ! i < 1"
      "0 \<le> LOG10_MANTISSA_E k ! j" "LOG10_MANTISSA_E k ! j < 1"
      using mantissa_range assms by simp_all
    show ?thesis
    proof (cases "d < e")
      case True
      then have "real_of_int d + 1 \<le> real_of_int e" by linarith
      then show ?thesis using True r by simp
    next
      case False
      with \<open>d \<noteq> e\<close> have "real_of_int e + 1 \<le> real_of_int d" by linarith
      then show ?thesis using False \<open>d \<noteq> e\<close> r by simp
    qed
  qed
  finally show ?thesis .
qed

lemma value_at_eq_iff:
  assumes "i < length (E_dict k)" "j < length (E_dict k)"
  shows "value_at k d i = value_at k e j \<longleftrightarrow> d = e \<and> i = j"
  using value_at_less_iff[OF assms, of d e] value_at_less_iff[OF assms(2,1), of e d]
  by auto

lemma value_at_bounds:
  assumes "i < length (E_dict k)"
  shows "10 powr of_int d \<le> value_at k d i" and "value_at k d i < 10 * 10 powr of_int d"
proof -
  define p :: real where "p = 10 powr of_int (d - base_decade k)"
  define B :: real where "B = 10 powr of_int (base_decade k)"
  define t :: real where "t = of_int (E_dict k ! i)"
  have e: "B * p = 10 powr of_int d" by (simp add: B_def p_def powr_add[symmetric])
  have p: "0 < p" by (simp add: p_def)
  have v: "value_at k d i = t * p" by (simp only: value_at_def t_def p_def)
  have Bt: "B \<le> t" unfolding B_def t_def by (rule entry_bounds(1)[OF assms])
  have tB: "t < 10 * B" unfolding B_def t_def by (rule entry_bounds(2)[OF assms])
  have "B * p \<le> t * p" using Bt p by (intro mult_right_mono) simp_all
  then show "10 powr of_int d \<le> value_at k d i" by (simp only: e v)
  have "t * p < (10 * B) * p" using tB p by (intro mult_strict_right_mono)
  then have "t * p < 10 * (B * p)" by (simp only: mult.assoc)
  then show "value_at k d i < 10 * 10 powr of_int d" by (simp only: e v)
qed

lemma epsilon_of_bounds: "0 < epsilon_of k" "epsilon_of k < 1 / 2"
proof -
  let ?n = "length (E_dict k)"
  have n: "3 \<le> ?n" by (rule table_length_ge)
  have ne: "LOG10_MANTISSA_E k \<noteq> []" using n mantissa_length[of k] by auto
  have l: "last (LOG10_MANTISSA_E k) = LOG10_MANTISSA_E k ! (?n - 1)"
    using ne by (simp add: last_conv_nth mantissa_length)
  have lt: "LOG10_MANTISSA_E k ! (?n - 2) < LOG10_MANTISSA_E k ! (?n - 1)"
    using n by (intro mantissa_less) auto
  have a: "0 \<le> LOG10_MANTISSA_E k ! (?n - 2)" using n by (intro mantissa_range) auto
  have b: "LOG10_MANTISSA_E k ! (?n - 1) < 1" using n by (intro mantissa_range) auto
  show "0 < epsilon_of k" using lt by (simp add: epsilon_of_def l mantissa_length)
  show "epsilon_of k < 1 / 2" using a b by (simp add: epsilon_of_def l mantissa_length)
qed

section \<open>One turn of the inner loop\<close>

lemma round_half_even_of_int: "round_half_even (of_int n) = n"
  by (simp add: round_half_even_def)

lemma float_overflow_pos: "0 < float_overflow"
  by (simp add: float_overflow_def)

lemma try_integral_first: "try_integral (log 10 (of_int (series k ! 0))) = Inr (base_decade k)"
proof -
  have "log 10 (of_int (series k ! 0)) = of_int (base_decade k)"
    using base_decade_nonneg[of k] by (simp add: series_def table_first)
  then show ?thesis by (simp add: try_integral_def is_integral_def)
qed

section \<open>Running the generator\<close>

lemma generate_map:
  assumes "\<forall>p\<in>set ps. item p = (if bad p then Inl e else Inr (if P p then Some (f p) else None))"
  shows "generate (map item ps) =
     (map f (filter P (takeWhile (\<lambda>p. \<not> bad p) ps)),
      if \<exists>p\<in>set ps. bad p then Some e else None)"
  using assms
proof (induction ps)
  case Nil
  show ?case by simp
next
  case (Cons p ps)
  then have IH: "generate (map item ps) =
     (map f (filter P (takeWhile (\<lambda>p. \<not> bad p) ps)),
      if \<exists>p\<in>set ps. bad p then Some e else None)"
    by simp
  have p: "item p = (if bad p then Inl e else Inr (if P p then Some (f p) else None))"
    using Cons.prems by simp
  show ?case
  proof (cases "bad p")
    case True
    then show ?thesis using p by simp
  next
    case False
    then show ?thesis using p IH by (cases "P p") simp_all
  qed
qed

lemma erange_body_unfold:
  "erange_body k a b =
     (if snd (stop_position k b) = 0 then ([], Some AssertionError)
      else generate (map (erange_item (series k) (base_decade k) a b) (range_positions k a b)))"
  by (simp add: erange_body_def start_position_def stop_position_def range_positions_def
      epsilon_of_def Let_def try_integral_first mantissa_length)

section \<open>The positions that \<open>erange\<close> visits\<close>

lemma table_nonempty: "0 < length (E_dict k)"
  using table_length_ge[of k] by (cases "E_dict k") simp_all

lemma frac_decomp: "x = of_int \<lfloor>x\<rfloor> + frac (x::real)"
  by (simp add: frac_def)

lemma stop_index_bounds:
  "0 < snd (stop_position k b)" "snd (stop_position k b) \<le> length (E_dict k)"
proof -
  let ?mu = "frac (log 10 b + epsilon_of k)"
  have len: "0 < length (LOG10_MANTISSA_E k)"
    using table_nonempty[of k] by (simp add: mantissa_length)
  show "0 < snd (stop_position k b)"
  proof (rule ccontr)
    assume "\<not> 0 < snd (stop_position k b)"
    then have z: "bisect_right (LOG10_MANTISSA_E k) ?mu = 0"
      by (simp add: stop_position_def decade_mantissa_def Let_def)
    have "?mu < LOG10_MANTISSA_E k ! 0"
      using bisect_right_spec(3)[OF mantissa_sorted, of k ?mu 0] z len by simp
    then show False using frac_ge_0[of "log 10 b + epsilon_of k"] by (simp add: mantissa_first)
  qed
  show "snd (stop_position k b) \<le> length (E_dict k)"
    using bisect_right_spec(1)[OF mantissa_sorted, of k ?mu]
    by (simp add: stop_position_def decade_mantissa_def mantissa_length Let_def)
qed

lemma start_index_bound: "snd (start_position k a) < length (E_dict k)"
proof -
  let ?mu = "frac (log 10 a - epsilon_of k)"
  have len: "0 < length (E_dict k)" by (rule table_nonempty)
  have "bisect_left (LOG10_MANTISSA_E k) ?mu \<le> length (E_dict k)"
    using bisect_left_spec(1)[OF mantissa_sorted, of k ?mu] by (simp add: mantissa_length)
  then show ?thesis
    using len by (auto simp: start_position_def decade_mantissa_def mantissa_length Let_def)
qed

lemma start_position_le:
  assumes "i < length (E_dict k)"
  shows "(fst (start_position k a) < d \<or>
          (fst (start_position k a) = d \<and> snd (start_position k a) \<le> i))
     \<longleftrightarrow> log 10 a - epsilon_of k \<le> of_int d + LOG10_MANTISSA_E k ! i"
proof -
  define x where "x = log 10 a - epsilon_of k"
  define D where "D = \<lfloor>x\<rfloor>"
  define mu where "mu = frac x"
  define i0 where "i0 = bisect_left (LOG10_MANTISSA_E k) mu"
  define m where "m = LOG10_MANTISSA_E k ! i"
  have x: "x = of_int D + mu" unfolding D_def mu_def by (rule frac_decomp)
  have mu: "0 \<le> mu" "mu < 1" by (simp_all add: mu_def frac_lt_1)
  have m: "0 \<le> m" "m < 1" using mantissa_range[OF assms] by (simp_all add: m_def)
  have i0: "i0 \<le> length (E_dict k)"
    using bisect_left_spec(1)[OF mantissa_sorted, of k mu] by (simp add: i0_def mantissa_length)
  have below: "i < i0 \<Longrightarrow> m < mu"
    using bisect_left_spec(2)[OF mantissa_sorted, of i k mu] by (simp add: i0_def m_def)
  have above: "i0 \<le> i \<Longrightarrow> mu \<le> m"
    using bisect_left_spec(3)[OF mantissa_sorted, of k mu i] assms
    by (simp add: i0_def m_def mantissa_length)
  have sp: "start_position k a =
     (if i0 = length (E_dict k) then D + 1 else D, if i0 = length (E_dict k) then 0 else i0)"
    by (simp add: start_position_def decade_mantissa_def Let_def x_def D_def mu_def i0_def
        mantissa_length)
  have gt: "D < d \<Longrightarrow> x \<le> of_int d + m"
  proof -
    assume "D < d"
    then have "real_of_int D + 1 \<le> of_int d" by linarith
    then show ?thesis using x mu m by linarith
  qed
  have lt: "d < D \<Longrightarrow> \<not> x \<le> of_int d + m"
  proof -
    assume "d < D"
    then have "real_of_int d + 1 \<le> of_int D" by linarith
    then show ?thesis using x mu m by linarith
  qed
  have eq: "d = D \<Longrightarrow> x \<le> of_int d + m \<longleftrightarrow> mu \<le> m"
    using x by simp
  show ?thesis
  proof (cases "i0 = length (E_dict k)")
    case True
    then have mm: "m < mu" using below assms by simp
    consider "d < D" | "d = D" | "D < d" by linarith
    then have "x \<le> of_int d + m \<longleftrightarrow> D < d"
    proof cases
      case 1
      then show ?thesis using lt by simp
    next
      case 2
      then show ?thesis using eq mm by simp
    next
      case 3
      then show ?thesis using gt by simp
    qed
    then show ?thesis using True by (auto simp: sp x_def[symmetric] m_def[symmetric])
  next
    case False
    consider "d < D" | "d = D" "i < i0" | "d = D" "i0 \<le> i" | "D < d" by linarith
    then have "x \<le> of_int d + m \<longleftrightarrow> D < d \<or> (D = d \<and> i0 \<le> i)"
    proof cases
      case 1
      then show ?thesis using lt by simp
    next
      case 2
      then show ?thesis using eq below by simp
    next
      case 3
      then show ?thesis using eq above by simp
    next
      case 4
      then show ?thesis using gt by simp
    qed
    then show ?thesis using False by (auto simp: sp x_def[symmetric] m_def[symmetric])
  qed
qed

lemma stop_position_gt:
  assumes "i < length (E_dict k)"
  shows "(d < fst (stop_position k b) \<or>
          (d = fst (stop_position k b) \<and> i < snd (stop_position k b)))
     \<longleftrightarrow> of_int d + LOG10_MANTISSA_E k ! i \<le> log 10 b + epsilon_of k"
proof -
  define x where "x = log 10 b + epsilon_of k"
  define D where "D = \<lfloor>x\<rfloor>"
  define mu where "mu = frac x"
  define i1 where "i1 = bisect_right (LOG10_MANTISSA_E k) mu"
  define m where "m = LOG10_MANTISSA_E k ! i"
  have x: "x = of_int D + mu" unfolding D_def mu_def by (rule frac_decomp)
  have mu: "0 \<le> mu" "mu < 1" by (simp_all add: mu_def frac_lt_1)
  have m: "0 \<le> m" "m < 1" using mantissa_range[OF assms] by (simp_all add: m_def)
  have below: "i < i1 \<Longrightarrow> m \<le> mu"
    using bisect_right_spec(2)[OF mantissa_sorted, of i k mu] by (simp add: i1_def m_def)
  have above: "i1 \<le> i \<Longrightarrow> mu < m"
    using bisect_right_spec(3)[OF mantissa_sorted, of k mu i] assms
    by (simp add: i1_def m_def mantissa_length)
  have sp: "stop_position k b = (D, i1)"
    by (simp add: stop_position_def decade_mantissa_def Let_def x_def D_def mu_def i1_def)
  have lt: "d < D \<Longrightarrow> of_int d + m \<le> x"
  proof -
    assume "d < D"
    then have "real_of_int d + 1 \<le> of_int D" by linarith
    then show ?thesis using x mu m by linarith
  qed
  have gt: "D < d \<Longrightarrow> \<not> of_int d + m \<le> x"
  proof -
    assume "D < d"
    then have "real_of_int D + 1 \<le> of_int d" by linarith
    then show ?thesis using x mu m by linarith
  qed
  have eq: "d = D \<Longrightarrow> of_int d + m \<le> x \<longleftrightarrow> m \<le> mu"
    using x by simp
  consider "d < D" | "d = D" "i < i1" | "d = D" "i1 \<le> i" | "D < d" by linarith
  then have "of_int d + m \<le> x \<longleftrightarrow> d < D \<or> (d = D \<and> i < i1)"
  proof cases
    case 1
    then show ?thesis using lt by simp
  next
    case 2
    then show ?thesis using eq below by simp
  next
    case 3
    then show ?thesis using eq above by simp
  next
    case 4
    then show ?thesis using gt by simp
  qed
  then show ?thesis by (auto simp: sp x_def[symmetric] m_def[symmetric])
qed

lemma set_erange_positions:
  "(d, i) \<in> set (erange_positions n d0 i0 d1 i1) \<longleftrightarrow>
     d0 \<le> d \<and> d \<le> d1 \<and> (if d = d0 then i0 else 0) \<le> i \<and> i < (if d = d1 then i1 else n)"
  by (auto simp: erange_positions_def)

lemma range_positions_index:
  assumes "p \<in> set (range_positions k a b)"
  shows "snd p < length (E_dict k)"
proof -
  obtain d i where p: "p = (d, i)" by (cases p)
  have "i < (if d = fst (stop_position k b) then snd (stop_position k b) else length (E_dict k))"
    using assms by (simp add: p range_positions_def set_erange_positions)
  then show ?thesis using stop_index_bounds(2)[of k b] by (simp add: p split: if_splits)
qed

lemma mem_range_positions:
  assumes "i < length (E_dict k)"
  shows "(d, i) \<in> set (range_positions k a b) \<longleftrightarrow>
     log 10 a - epsilon_of k \<le> of_int d + LOG10_MANTISSA_E k ! i \<and>
     of_int d + LOG10_MANTISSA_E k ! i \<le> log 10 b + epsilon_of k"
proof -
  have "(d, i) \<in> set (range_positions k a b) \<longleftrightarrow>
     (fst (start_position k a) < d \<or>
          (fst (start_position k a) = d \<and> snd (start_position k a) \<le> i)) \<and>
     (d < fst (stop_position k b) \<or>
          (d = fst (stop_position k b) \<and> i < snd (stop_position k b)))"
    using assms by (auto simp: range_positions_def set_erange_positions)
  then show ?thesis
    by (simp only: start_position_le[OF assms] stop_position_gt[OF assms])
qed

section \<open>The order of the visited positions\<close>

lemma sorted_wrt_positions:
  assumes "sorted_wrt (<) ds"
  shows "sorted_wrt (\<lambda>p q. fst p < fst q \<or> (fst p = fst q \<and> snd p < snd q))
           (concat (map (\<lambda>d. map (Pair d) [lo d ..< hi d]) (ds :: int list)))"
  using assms
proof (induction ds)
  case Nil
  show ?case by simp
next
  case (Cons d ds)
  have inner: "sorted_wrt (\<lambda>p q. fst p < fst q \<or> (fst p = fst q \<and> snd p < snd q))
                 (map (Pair d) [lo d ..< hi d])"
    by (simp add: sorted_wrt_map sorted_wrt_iff_nth_less)
  show ?case using Cons inner by (auto simp: sorted_wrt_append)
qed

lemma sorted_wrt_erange_positions:
  "sorted_wrt (\<lambda>p q. fst p < fst q \<or> (fst p = fst q \<and> snd p < snd q))
     (erange_positions n d0 i0 d1 i1)"
proof -
  have "sorted_wrt (<) [d0..d1]" by (simp add: strict_sorted_iff)
  then show ?thesis unfolding erange_positions_def by (rule sorted_wrt_positions)
qed

lemma position_value_less:
  assumes "snd p < length (E_dict k)" "snd q < length (E_dict k)"
    "fst p < fst q \<or> (fst p = fst q \<and> snd p < snd q)"
  shows "position_value k p < position_value k q"
  using assms by (simp add: position_value_def value_at_less_iff)

lemma sorted_range_positions:
  "sorted_wrt (<) (map (position_value k) (range_positions k a b))"
proof -
  have "sorted_wrt (\<lambda>p q. position_value k p < position_value k q) (range_positions k a b)"
  proof (rule sorted_wrt_mono_rel)
    show "sorted_wrt (\<lambda>p q. fst p < fst q \<or> (fst p = fst q \<and> snd p < snd q))
            (range_positions k a b)"
      unfolding range_positions_def by (rule sorted_wrt_erange_positions)
  next
    fix p q
    assume "p \<in> set (range_positions k a b)" "q \<in> set (range_positions k a b)"
      "fst p < fst q \<or> (fst p = fst q \<and> snd p < snd q)"
    then show "position_value k p < position_value k q"
      by (intro position_value_less range_positions_index)
  qed
  then show ?thesis by (simp add: sorted_wrt_map)
qed

section \<open>Rounding to binary64\<close>

lemma round_half_even_error: "\<bar>of_int (round_half_even y) - y\<bar> \<le> 1 / 2"
proof -
  have "of_int \<lfloor>y\<rfloor> \<le> y" "y < of_int \<lfloor>y\<rfloor> + 1" by linarith+
  then show ?thesis by (auto simp: round_half_even_def Let_def)
qed

lemma round_half_even_near:
  assumes "\<bar>y - of_int m\<bar> < 1 / 2"
  shows "round_half_even y = m"
proof -
  have e: "\<bar>of_int (round_half_even y) - y\<bar> \<le> 1 / 2" by (rule round_half_even_error)
  have "\<bar>real_of_int (round_half_even y) - of_int m\<bar> < 1" using e assms by linarith
  then have "\<bar>real_of_int (round_half_even y - m)\<bar> < 1" by simp
  then have "\<bar>round_half_even y - m\<bar> < 1" by linarith
  then show ?thesis by linarith
qed

lemma binary64_exponent:
  assumes "2 powr (- 1022) \<le> \<bar>x\<bar>"
  shows "binary64 x =
     of_int (round_half_even (x / 2 powr of_int (\<lfloor>log 2 \<bar>x\<bar>\<rfloor> - 52))) *
       2 powr of_int (\<lfloor>log 2 \<bar>x\<bar>\<rfloor> - 52)"
    and "2 powr of_int \<lfloor>log 2 \<bar>x\<bar>\<rfloor> \<le> \<bar>x\<bar>"
proof -
  have pos: "0 < \<bar>x\<bar>" using assms powr_gt_zero[of 2 "- 1022"] by linarith
  then have x0: "x \<noteq> 0" by auto
  have "log 2 (2 powr (- 1022)) \<le> log 2 \<bar>x\<bar>"
    using assms pos by (subst log_le_cancel_iff) simp_all
  then have "- 1022 \<le> log 2 \<bar>x\<bar>" by simp
  then have "- 1022 \<le> \<lfloor>log 2 \<bar>x\<bar>\<rfloor>" by linarith
  then have m: "max \<lfloor>log 2 \<bar>x\<bar>\<rfloor> (- 1022) = \<lfloor>log 2 \<bar>x\<bar>\<rfloor>" by simp
  show "binary64 x =
     of_int (round_half_even (x / 2 powr of_int (\<lfloor>log 2 \<bar>x\<bar>\<rfloor> - 52))) *
       2 powr of_int (\<lfloor>log 2 \<bar>x\<bar>\<rfloor> - 52)"
    using x0 by (simp only: binary64_def m Let_def if_False)
  have "of_int \<lfloor>log 2 \<bar>x\<bar>\<rfloor> \<le> log 2 \<bar>x\<bar>" by simp
  then have "2 powr of_int \<lfloor>log 2 \<bar>x\<bar>\<rfloor> \<le> 2 powr log 2 \<bar>x\<bar>"
    by (subst powr_le_cancel_iff) simp_all
  then show "2 powr of_int \<lfloor>log 2 \<bar>x\<bar>\<rfloor> \<le> \<bar>x\<bar>" using pos by simp
qed

lemma binary64_error:
  assumes "2 powr (- 1022) \<le> \<bar>x\<bar>"
  shows "\<bar>binary64 x - x\<bar> \<le> \<bar>x\<bar> / 2 ^ 53"
proof -
  define e where "e = \<lfloor>log 2 \<bar>x\<bar>\<rfloor>"
  define q :: real where "q = 2 powr of_int (e - 52)"
  have q: "0 < q" by (simp add: q_def)
  have b: "binary64 x = of_int (round_half_even (x / q)) * q"
    unfolding q_def e_def by (rule binary64_exponent(1)[OF assms])
  have le: "2 powr of_int e \<le> \<bar>x\<bar>"
    unfolding e_def by (rule binary64_exponent(2)[OF assms])
  have "binary64 x - x = (of_int (round_half_even (x / q)) - x / q) * q"
    using q by (simp add: b field_simps)
  then have "\<bar>binary64 x - x\<bar> = \<bar>of_int (round_half_even (x / q)) - x / q\<bar> * q"
    using q by (simp add: abs_mult)
  also have "\<dots> \<le> 1 / 2 * q"
    using round_half_even_error[of "x / q"] q by (intro mult_right_mono) simp_all
  also have "1 / 2 * q = 2 powr of_int e / 2 ^ 53"
  proof -
    have "q = 2 powr of_int e * 2 powr (- 52)"
      by (simp add: q_def powr_add[symmetric])
    also have "(2::real) powr (- 52) = 1 / 2 ^ 52"
      by (simp add: powr_minus_divide)
    finally show ?thesis by simp
  qed
  also have "\<dots> \<le> \<bar>x\<bar> / 2 ^ 53" using le by (simp add: divide_right_mono)
  finally show ?thesis .
qed

lemma binary64_bounds:
  assumes "2 powr (- 1022) \<le> x"
  shows "x * (1 - 1 / 2 ^ 53) \<le> binary64 x" and "binary64 x \<le> x * (1 + 1 / 2 ^ 53)"
    and "0 < binary64 x"
proof -
  have pos: "0 < x" using assms powr_gt_zero[of 2 "- 1022"] by linarith
  have "\<bar>binary64 x - x\<bar> \<le> x / 2 ^ 53"
    using binary64_error[of x] assms pos by simp
  then have a: "x - x / 2 ^ 53 \<le> binary64 x" and b: "binary64 x \<le> x + x / 2 ^ 53"
    by linarith+
  show "x * (1 - 1 / 2 ^ 53) \<le> binary64 x" using a by (simp add: algebra_simps)
  show "binary64 x \<le> x * (1 + 1 / 2 ^ 53)" using b by (simp add: algebra_simps)
  have "x / 2 ^ 53 < x" using pos by simp
  then show "0 < binary64 x" using a by linarith
qed

lemma binary64_of_int:
  assumes "\<bar>n\<bar> < 2 ^ 53"
  shows "binary64 (of_int n) = of_int n"
proof (cases "n = 0")
  case True
  then show ?thesis by (simp add: binary64_def)
next
  case False
  define x :: real where "x = of_int n"
  define e where "e = \<lfloor>log 2 \<bar>x\<bar>\<rfloor>"
  have x1: "1 \<le> \<bar>x\<bar>" using False by (simp add: x_def)
  have xu: "\<bar>x\<bar> < 2 ^ 53"
  proof -
    have "real_of_int \<bar>n\<bar> < real_of_int (2 ^ 53)" using assms by (simp only: of_int_less_iff)
    then show ?thesis by (simp add: x_def)
  qed
  have small: "2 powr (- 1022) \<le> \<bar>x\<bar>"
  proof -
    have "(2::real) powr (- 1022) \<le> 2 powr 0" by (subst powr_le_cancel_iff) simp_all
    then show ?thesis using x1 by simp
  qed
  have "0 \<le> log 2 \<bar>x\<bar>" using x1 by simp
  then have e0: "0 \<le> e" by (simp add: e_def)
  have l53: "log 2 (9007199254740992::real) = 53"
    using log_pow_cancel[of "2::real" 53] by simp
  have "log 2 \<bar>x\<bar> < log 2 (2 ^ 53)" using xu x1 by (subst log_less_cancel_iff) simp_all
  then have "log 2 \<bar>x\<bar> < 53" by (simp add: l53)
  then have e52: "e \<le> 52" unfolding e_def by linarith
  define m where "m = nat (52 - e)"
  have q: "(2::real) powr of_int (e - 52) = 1 / 2 ^ m"
  proof -
    have "real_of_int (e - 52) = - real m" using e52 by (simp add: m_def)
    then show ?thesis by (simp add: powr_minus_divide powr_realpow)
  qed
  have "x / (1 / 2 ^ m) = of_int (n * 2 ^ m)" by (simp add: x_def)
  then have r: "round_half_even (x / (1 / 2 ^ m)) = n * 2 ^ m"
    by (simp only: round_half_even_of_int)
  have "binary64 x = of_int (round_half_even (x / (1 / 2 ^ m))) * (1 / 2 ^ m)"
    using binary64_exponent(1)[OF small] by (simp only: e_def[symmetric] q)
  also have "\<dots> = x" by (simp only: r) (simp add: x_def)
  finally show ?thesis by (simp add: x_def)
qed

lemma binary64_numeral:
  assumes "(numeral w :: int) < 2 ^ 53"
  shows "binary64 (numeral w) = numeral w"
  using binary64_of_int[of "numeral w"] assms by simp

section \<open>The float that one turn of the loop computes\<close>

lemma tiny_le_powr10:
  "(2::real) powr (- 1022) \<le> 10 powr (- 302)" "(2::real) powr (- 1022) \<le> 10 powr (- 300) / 2"
proof -
  have a: "(2::real) powr (- 1022) = 1 / 2 ^ 1022" by (simp add: powr_minus_divide)
  have b: "(10::real) powr (- 302) = 1 / 10 ^ 302" by (simp add: powr_minus_divide)
  have c: "(10::real) powr (- 300) = 1 / 10 ^ 300" by (simp add: powr_minus_divide)
  show "(2::real) powr (- 1022) \<le> 10 powr (- 302)" unfolding a b by (simp add: field_simps)
  show "(2::real) powr (- 1022) \<le> 10 powr (- 300) / 2" unfolding a c by (simp add: field_simps)
qed

lemma round_recovers_entry:
  fixes t :: int and P r :: real
  assumes "0 < P" "1 \<le> t" "t < 1000" "\<bar>r - of_int t * P\<bar> \<le> of_int t * P / 2 ^ 51"
  shows "round_half_even (r / P) = t" and "round_half_even (10 * r / P) = 10 * t"
proof -
  have t: "real_of_int t < 1000" "1 \<le> real_of_int t" using assms(2,3) by simp_all
  have "r / P - of_int t = (r - of_int t * P) / P"
    using assms(1) by (simp add: diff_divide_distrib)
  then have "\<bar>r / P - of_int t\<bar> = \<bar>r - of_int t * P\<bar> / \<bar>P\<bar>"
    by (simp only: abs_divide)
  then have "\<bar>r / P - of_int t\<bar> = \<bar>r - of_int t * P\<bar> / P"
    using assms(1) by simp
  also have "\<dots> \<le> (of_int t * P / 2 ^ 51) / P"
    using assms(1,4) by (intro divide_right_mono) simp_all
  also have "\<dots> = of_int t / 2 ^ 51" using assms(1) by simp
  finally have e: "\<bar>r / P - of_int t\<bar> \<le> of_int t / 2 ^ 51" .
  have "real_of_int t / 2 ^ 51 < 1 / 20" using t by simp
  then have e': "\<bar>r / P - of_int t\<bar> < 1 / 20" using e by linarith
  then show "round_half_even (r / P) = t" by (intro round_half_even_near) linarith
  have "10 * r / P - of_int (10 * t) = 10 * (r / P - of_int t)" by simp
  then have "\<bar>10 * r / P - of_int (10 * t)\<bar> = \<bar>10\<bar> * \<bar>r / P - of_int t\<bar>"
    by (simp only: abs_mult)
  then have "\<bar>10 * r / P - of_int (10 * t)\<bar> = 10 * \<bar>r / P - of_int t\<bar>" by simp
  then have "\<bar>10 * r / P - of_int (10 * t)\<bar> < 1 / 2" using e' by linarith
  then show "round_half_even (10 * r / P) = 10 * t" by (rule round_half_even_near)
qed

lemma entry_int_bounds:
  assumes "i < length (E_dict k)"
  shows "1 \<le> E_dict k ! i" "E_dict k ! i < 1000"
proof -
  have mem: "E_dict k ! i \<in> set (E_dict k)" using assms by simp
  have a: "10 ^ nat (base_decade k) \<le> E_dict k ! i"
    and b: "E_dict k ! i < 10 * 10 ^ nat (base_decade k)"
    using table_bounds[of k] mem by blast+
  have "(1::int) \<le> 10 ^ nat (base_decade k)" by simp
  then show "1 \<le> E_dict k ! i" using a by linarith
  have "(10::int) * 10 ^ nat (base_decade k) \<le> 1000" by (simp add: base_decade_eq)
  then show "E_dict k ! i < 1000" using b by linarith
qed

lemma round_sig_product:
  assumes i: "i < length (E_dict k)" and d: "- 300 \<le> d" and no: "\<not> overflows k (d, i)"
  shows "math_pow10 (d - base_decade k) = Inr (binary64 (10 powr of_int (d - base_decade k)))"
    and "round_sig (py_mul (of_int (E_dict k ! i)) (binary64 (10 powr of_int (d - base_decade k))))
           (base_decade k + 1) = Inr (binary64 (value_at k d i))"
proof -
  define t where "t = E_dict k ! i"
  define P :: real where "P = 10 powr of_int (d - base_decade k)"
  define D :: real where "D = of_int t * P"
  define p' where "p' = binary64 P"
  define x where "x = of_int t * p'"
  define r where "r = binary64 x"
  define u :: real where "u = 1 / 2 ^ 53"
  have D: "value_at k d i = D" by (simp add: value_at_def D_def t_def P_def)
  have t: "1 \<le> t" "t < 1000" unfolding t_def using entry_int_bounds[OF i] by simp_all
  have tr: "1 \<le> real_of_int t" "real_of_int t < 1000" using t by simp_all
  have P0: "0 < P" by (simp add: P_def)
  have D0: "0 < D" using tr P0 by (simp add: D_def)
  have no1: "\<not> float_overflow \<le> P" and no2: "\<not> float_overflow \<le> x"
    using no by (simp_all add: overflows_def P_def x_def p'_def t_def)
  show "math_pow10 (d - base_decade k) = Inr (binary64 (10 powr of_int (d - base_decade k)))"
    using no1 by (simp add: math_pow10_def P_def)
  have bd: "base_decade k \<le> 2" by (simp add: base_decade_eq)
  have Psmall: "2 powr (- 1022) \<le> P"
  proof -
    have "- 302 \<le> real_of_int (d - base_decade k)" using d bd by simp
    then have "(10::real) powr (- 302) \<le> P" unfolding P_def by (subst powr_le_cancel_iff) simp_all
    then show ?thesis using tiny_le_powr10(1) by linarith
  qed
  have p'b: "P * (1 - u) \<le> p'" "p' \<le> P * (1 + u)" "0 < p'"
    unfolding p'_def u_def using binary64_bounds[OF Psmall] by simp_all
  have xb: "D * (1 - u) \<le> x" "x \<le> D * (1 + u)"
  proof -
    have "of_int t * (P * (1 - u)) \<le> of_int t * p'" using p'b(1) tr by (intro mult_left_mono) simp_all
    then show "D * (1 - u) \<le> x" by (simp add: D_def x_def mult.assoc)
    have "of_int t * p' \<le> of_int t * (P * (1 + u))" using p'b(2) tr by (intro mult_left_mono) simp_all
    then show "x \<le> D * (1 + u)" by (simp add: D_def x_def mult.assoc)
  qed
  have Dlow: "10 powr (- 300) \<le> D"
  proof -
    have "(10::real) powr (- 300) \<le> 10 powr of_int d" using d by (subst powr_le_cancel_iff) simp_all
    then show ?thesis using value_at_bounds(1)[OF i, of d] D by linarith
  qed
  have half: "D / 2 \<le> D * (1 - u)" using D0 by (simp add: u_def field_simps)
  have xsmall: "2 powr (- 1022) \<le> x" using tiny_le_powr10(2) Dlow half xb(1) by linarith
  have x0: "0 < x" using xsmall powr_gt_zero[of 2 "- 1022"] by linarith
  have mul: "py_mul (of_int t) p' = Finite r"
    using no2 x0 float_overflow_pos by (simp add: py_mul_def x_def r_def)
  have rb: "x * (1 - u) \<le> r" "r \<le> x * (1 + u)" "0 < r"
    unfolding r_def u_def using binary64_bounds[OF xsmall] by simp_all
  have up: "r \<le> D * ((1 + u) * (1 + u))"
  proof -
    have "x * (1 + u) \<le> (D * (1 + u)) * (1 + u)"
      using xb(2) by (intro mult_right_mono) (simp_all add: u_def)
    then show ?thesis using rb(2) by (simp add: mult.assoc)
  qed
  have lo: "D * ((1 - u) * (1 - u)) \<le> r"
  proof -
    have "(D * (1 - u)) * (1 - u) \<le> x * (1 - u)"
      using xb(1) by (intro mult_right_mono) (simp_all add: u_def)
    then show ?thesis using rb(1) by (simp add: mult.assoc)
  qed
  have upn: "(1 + u) * (1 + u) \<le> 1 + 1 / 2 ^ 51" by (simp add: u_def)
  have lon: "1 - 1 / 2 ^ 51 \<le> (1 - u) * (1 - u)" by (simp add: u_def)
  have "D * ((1 + u) * (1 + u)) \<le> D * (1 + 1 / 2 ^ 51)"
    using upn D0 by (intro mult_left_mono) simp_all
  then have up': "r \<le> D + D / 2 ^ 51" using up by (simp add: algebra_simps)
  have "D * (1 - 1 / 2 ^ 51) \<le> D * ((1 - u) * (1 - u))"
    using lon D0 by (intro mult_left_mono) simp_all
  then have lo': "D - D / 2 ^ 51 \<le> r" using lo by (simp add: algebra_simps)
  have "\<bar>r - D\<bar> \<le> D / 2 ^ 51" using up' lo' by linarith
  then have err: "\<bar>r - of_int t * P\<bar> \<le> of_int t * P / 2 ^ 51"
    by (simp only: D_def)
  have rec: "round_half_even (r / P) = t" "round_half_even (10 * r / P) = 10 * t"
    using round_recovers_entry[OF P0 t err] by simp_all
  have Pinv: "(10::real) powr of_int (base_decade k - d) = 1 / P"
  proof -
    have "real_of_int (base_decade k - d) = - real_of_int (d - base_decade k)" by simp
    then show ?thesis by (simp only: P_def powr_minus_divide)
  qed
  have P10: "(10::real) powr of_int (base_decade k - (d - 1)) = 10 / P"
  proof -
    have "real_of_int (base_decade k - (d - 1)) = real_of_int (base_decade k - d) + 1" by simp
    then have "(10::real) powr of_int (base_decade k - (d - 1))
               = 10 powr of_int (base_decade k - d) * 10 powr 1"
      by (simp only: powr_add)
    also have "\<dots> = 1 / P * 10" by (simp only: Pinv) simp
    finally show ?thesis by simp
  qed
  have rd1: "py_round r (base_decade k - d) = binary64 D"
  proof -
    have "r * (1 / P) = r / P" by simp
    moreover have "of_int t / (1 / P) = D" by (simp add: D_def)
    ultimately show ?thesis by (simp only: py_round_def Pinv rec(1))
  qed
  have rd2: "py_round r (base_decade k - (d - 1)) = binary64 D"
  proof -
    have "r * (10 / P) = 10 * r / P" by simp
    moreover have "of_int (10 * t) / (10 / P) = D" using P0 by (simp add: D_def)
    ultimately show ?thesis by (simp only: py_round_def P10 rec(2))
  qed
  have rhi: "r < 10 * 10 powr of_int d"
  proof -
    have "D + P \<le> 10 * 10 powr of_int d"
    proof -
      have "E_dict k ! i \<in> set (E_dict k)" using i by simp
      then have "E_dict k ! i < 10 * 10 ^ nat (base_decade k)"
        using table_bounds[of k] by blast
      then have "t + 1 \<le> 10 * 10 ^ nat (base_decade k)" by (simp add: t_def)
      then have "real_of_int (t + 1) \<le> real_of_int (10 * 10 ^ nat (base_decade k))"
        by (simp only: of_int_le_iff)
      then have "real_of_int t + 1 \<le> 10 * 10 powr of_int (base_decade k)"
        by (simp add: powr_base_decade)
      then have "(real_of_int t + 1) * P \<le> (10 * 10 powr of_int (base_decade k)) * P"
        using P0 by (intro mult_right_mono) simp_all
      moreover have "10 powr of_int (base_decade k) * P = 10 powr of_int d"
        by (simp add: P_def powr_add[symmetric])
      ultimately show ?thesis by (simp add: D_def algebra_simps)
    qed
    moreover have "D / 2 ^ 51 < P"
    proof -
      have "real_of_int t / 2 ^ 51 < 1" using tr by simp
      then have "real_of_int t / 2 ^ 51 * P < 1 * P" using P0 by (intro mult_strict_right_mono)
      then show ?thesis by (simp add: D_def)
    qed
    ultimately show ?thesis using up' by linarith
  qed
  have rlo: "10 powr of_int (d - 1) \<le> r"
  proof -
    have "10 powr of_int d \<le> D" using value_at_bounds(1)[OF i, of d] D by simp
    moreover have "(10::real) powr of_int (d - 1) = 10 powr of_int d / 10"
      by (simp add: powr_diff)
    moreover have "D / 10 \<le> D - D / 2 ^ 51" using D0 by (simp add: field_simps)
    moreover have "0 < (10::real) powr of_int d" by simp
    ultimately show ?thesis using lo' by linarith
  qed
  have fl: "\<lfloor>log 10 r\<rfloor> = d \<or> \<lfloor>log 10 r\<rfloor> = d - 1"
  proof (cases "10 powr of_int d \<le> r")
    case True
    have "(10::real) powr (of_int d + 1) = 10 * 10 powr of_int d" by (simp add: powr_add)
    then have "\<lfloor>log 10 r\<rfloor> = d"
      using True rhi rb(3) by (simp add: floor_log_eq_powr_iff)
    then show ?thesis by simp
  next
    case False
    have "real_of_int (d - 1) + 1 = of_int d" by simp
    then have "\<lfloor>log 10 r\<rfloor> = d - 1"
      using False rlo rb(3) by (simp only: floor_log_eq_powr_iff) simp
    then show ?thesis by simp
  qed
  have "round_sig (Finite r) (base_decade k + 1) = Inr (binary64 D)"
  proof -
    have "round_sig (Finite r) (base_decade k + 1)
          = Inr (py_round r (base_decade k + 1 - \<lfloor>log 10 r\<rfloor> - 1))"
      using rb(3) by simp
    also have "py_round r (base_decade k + 1 - \<lfloor>log 10 r\<rfloor> - 1) = binary64 D"
      using fl
    proof
      assume "\<lfloor>log 10 r\<rfloor> = d"
      then have "base_decade k + 1 - \<lfloor>log 10 r\<rfloor> - 1 = base_decade k - d" by simp
      then show ?thesis by (simp only: rd1)
    next
      assume "\<lfloor>log 10 r\<rfloor> = d - 1"
      then have "base_decade k + 1 - \<lfloor>log 10 r\<rfloor> - 1 = base_decade k - (d - 1)" by simp
      then show ?thesis by (simp only: rd2)
    qed
    finally show ?thesis .
  qed
  then show "round_sig (py_mul (of_int (E_dict k ! i)) (binary64 (10 powr of_int (d - base_decade k))))
           (base_decade k + 1) = Inr (binary64 (value_at k d i))"
    by (simp only: mul t_def[symmetric] P_def[symmetric] p'_def[symmetric] D)
qed

lemma erange_item_eq:
  assumes i: "i < length (E_dict k)" and d: "- 300 \<le> d"
  shows "erange_item (series k) (base_decade k) a b (d, i) =
     (if overflows k (d, i) then Inl OverflowError
      else Inr (if a \<le> yield_value k (d, i) \<and> yield_value k (d, i) \<le> b
                then Some (yield_value k (d, i)) else None))"
proof -
  define t :: real where "t = of_int (E_dict k ! i)"
  define P :: real where "P = 10 powr of_int (d - base_decade k)"
  have item: "erange_item (series k) (base_decade k) a b (d, i) =
     (case math_pow10 (d - base_decade k) of
        Inl e \<Rightarrow> Inl e
      | Inr pw \<Rightarrow>
          (case round_sig (py_mul t pw) (base_decade k + 1) of
             Inl e \<Rightarrow> Inl e
           | Inr r \<Rightarrow> Inr (if a \<le> r \<and> r \<le> b then Some r else None)))"
    by (simp only: erange_item_def Let_def fst_conv snd_conv series_def t_def)
  have yv: "yield_value k (d, i) = binary64 (value_at k d i)"
    by (simp add: yield_value_def position_value_def)
  show ?thesis
  proof (cases "overflows k (d, i)")
    case False
    have "math_pow10 (d - base_decade k) = Inr (binary64 P)"
      unfolding P_def by (rule round_sig_product(1)[OF i d False])
    moreover have "round_sig (py_mul t (binary64 P)) (base_decade k + 1)
                   = Inr (binary64 (value_at k d i))"
      unfolding P_def t_def by (rule round_sig_product(2)[OF i d False])
    ultimately show ?thesis using False by (simp add: item yv)
  next
    case True
    show ?thesis
    proof (cases "float_overflow \<le> P")
      case A: True
      then have "math_pow10 (d - base_decade k) = Inl OverflowError"
        by (simp add: math_pow10_def P_def)
      then show ?thesis using True by (simp add: item)
    next
      case B: False
      then have pw: "math_pow10 (d - base_decade k) = Inr (binary64 P)"
        by (simp add: math_pow10_def P_def)
      have "float_overflow \<le> t * binary64 P"
        using True B by (simp add: overflows_def P_def t_def)
      then have "py_mul t (binary64 P) = PosInf" by (simp add: py_mul_def)
      then show ?thesis using True by (simp add: item pw)
    qed
  qed
qed

lemma MINIMUM_E_VALUE_bounds: "0 < MINIMUM_E_VALUE" "10 powr (- 201) \<le> MINIMUM_E_VALUE"
proof -
  show "0 < MINIMUM_E_VALUE" by (simp add: MINIMUM_E_VALUE_def)
  have "(10::real) powr (- 201) = 1 / 10 ^ 201" by (simp add: powr_minus_divide)
  then show "10 powr (- 201) \<le> MINIMUM_E_VALUE"
    by (simp add: MINIMUM_E_VALUE_def field_simps)
qed

lemma range_positions_decade:
  assumes "MINIMUM_E_VALUE \<le> a" "p \<in> set (range_positions k a b)"
  shows "- 300 \<le> fst p"
proof -
  obtain d i where p: "p = (d, i)" by (cases p)
  have i: "i < length (E_dict k)" using range_positions_index[OF assms(2)] by (simp add: p)
  have a0: "0 < a" using assms(1) MINIMUM_E_VALUE_bounds(1) by linarith
  have "(10::real) powr (- 201) \<le> a" using assms(1) MINIMUM_E_VALUE_bounds(2) by linarith
  then have "log 10 (10 powr (- 201)) \<le> log 10 a"
    using a0 by (subst log_le_cancel_iff) simp_all
  then have la: "- 201 \<le> log 10 a" by simp
  have "log 10 a - epsilon_of k \<le> of_int d + LOG10_MANTISSA_E k ! i"
    using assms(2) mem_range_positions[OF i, of d a b] by (simp add: p)
  then have "- 201 - 1 / 2 < real_of_int d + 1"
    using la epsilon_of_bounds(2)[of k] mantissa_range(2)[OF i] by linarith
  then have "- 203 < d" by linarith
  then show ?thesis by (simp add: p)
qed

section \<open>What \<open>erange\<close> yields\<close>

lemma erange_body_eq:
  assumes "MINIMUM_E_VALUE \<le> a"
  shows "erange_body k a b =
     (map (yield_value k)
        (filter (\<lambda>p. a \<le> yield_value k p \<and> yield_value k p \<le> b)
           (takeWhile (\<lambda>p. \<not> overflows k p) (range_positions k a b))),
      if \<exists>p\<in>set (range_positions k a b). overflows k p
      then Some OverflowError else None)"
proof -
  have item: "\<forall>p\<in>set (range_positions k a b).
      erange_item (series k) (base_decade k) a b p =
      (if overflows k p then Inl OverflowError
       else Inr (if a \<le> yield_value k p \<and> yield_value k p \<le> b
                 then Some (yield_value k p) else None))"
  proof
    fix p assume p: "p \<in> set (range_positions k a b)"
    have i: "snd p < length (E_dict k)" using p by (rule range_positions_index)
    have d: "- 300 \<le> fst p" using assms p by (rule range_positions_decade)
    show "erange_item (series k) (base_decade k) a b p =
      (if overflows k p then Inl OverflowError
       else Inr (if a \<le> yield_value k p \<and> yield_value k p \<le> b
                 then Some (yield_value k p) else None))"
      using erange_item_eq[OF i d, of a b] by simp
  qed
  have "snd (stop_position k b) \<noteq> 0" using stop_index_bounds(1)[of k b] by simp
  then show ?thesis
    by (simp only: erange_body_unfold if_False generate_map[OF item])
qed

section \<open>Neighbouring standard values round to different floats\<close>

lemma value_at_gap:
  assumes "i < length (E_dict k)" "j < length (E_dict k)" "d < e \<or> (d = e \<and> i < j)"
  shows "value_at k d i * (1001 / 1000) \<le> value_at k e j"
proof -
  define P :: real where "P = 10 powr of_int (d - base_decade k)"
  have P0: "0 < P" by (simp add: P_def)
  have ti: "E_dict k ! i < 1000" using entry_int_bounds(2)[OF assms(1)] .
  show ?thesis
  proof (cases "d = e")
    case True
    then have "i < j" using assms(3) by simp
    then have "E_dict k ! i < E_dict k ! j"
      using table_sorted[of k] assms(2) by (simp add: sorted_wrt_iff_nth_less)
    then have "1001 * (E_dict k ! i) \<le> 1000 * (E_dict k ! j)" using ti by linarith
    then have "real_of_int (1001 * (E_dict k ! i)) \<le> real_of_int (1000 * (E_dict k ! j))"
      by (simp only: of_int_le_iff)
    then have "real_of_int (E_dict k ! i) * (1001 / 1000) \<le> real_of_int (E_dict k ! j)"
      by simp
    then have "real_of_int (E_dict k ! i) * (1001 / 1000) * P \<le> real_of_int (E_dict k ! j) * P"
      using P0 by (intro mult_right_mono) simp_all
    then show ?thesis using True by (simp add: value_at_def P_def mult.assoc mult.commute)
  next
    case False
    then have de: "d < e" using assms(3) by auto
    have mem: "E_dict k ! i \<in> set (E_dict k)" using assms(1) by simp
    have "E_dict k ! i < 10 * 10 ^ nat (base_decade k)" using table_bounds[of k] mem by blast
    moreover have "(10::int) * 10 ^ nat (base_decade k) \<le> 1000" by (simp add: base_decade_eq)
    ultimately have "1001 * (E_dict k ! i) \<le> 1000 * (10 * 10 ^ nat (base_decade k))"
      by linarith
    then have "real_of_int (1001 * (E_dict k ! i))
               \<le> real_of_int (1000 * (10 * 10 ^ nat (base_decade k)))"
      by (simp only: of_int_le_iff)
    then have h1: "real_of_int (E_dict k ! i) * (1001 / 1000) \<le> 10 * 10 powr of_int (base_decade k)"
      by (simp add: powr_base_decade)
    define t :: real where "t = of_int (E_dict k ! i)"
    define B :: real where "B = 10 powr of_int (base_decade k)"
    have h2: "B * P = 10 powr of_int d" by (simp add: B_def P_def powr_add[symmetric])
    have v: "value_at k d i = t * P" by (simp only: value_at_def t_def P_def)
    have "t * (1001 / 1000) * P \<le> (10 * B) * P"
      using h1 P0 unfolding t_def B_def by (intro mult_right_mono) simp_all
    also have "(10 * B) * P = 10 * (B * P)" by (simp only: mult.assoc)
    also have "\<dots> = 10 * 10 powr of_int d" by (simp only: h2)
    finally have "t * (1001 / 1000) * P \<le> 10 * 10 powr of_int d" .
    moreover have "t * P * (1001 / 1000) = t * (1001 / 1000) * P" by simp
    ultimately have "value_at k d i * (1001 / 1000) \<le> 10 * 10 powr of_int d"
      by (simp only: v)
    also have "10 * 10 powr of_int d = (10::real) powr of_int (d + 1)" by (simp add: powr_add)
    also have "\<dots> \<le> 10 powr of_int e" using de by (subst powr_le_cancel_iff) simp_all
    also have "\<dots> \<le> value_at k e j" by (rule value_at_bounds(1)[OF assms(2)])
    finally show ?thesis .
  qed
qed

lemma binary64_less:
  assumes "2 powr (- 1022) \<le> x" "x * (1001 / 1000) \<le> y"
  shows "binary64 x < binary64 y"
proof -
  have x0: "0 < x" using assms(1) powr_gt_zero[of 2 "- 1022"] by linarith
  have xy: "x \<le> y" using assms(2) x0 by simp
  have ys: "2 powr (- 1022) \<le> y" using assms(1) xy by linarith
  have "binary64 x \<le> x * (1 + 1 / 2 ^ 53)" by (rule binary64_bounds(2)[OF assms(1)])
  also have "\<dots> < x * (1001 / 1000) * (1 - 1 / 2 ^ 53)" using x0 by simp
  also have "\<dots> \<le> y * (1 - 1 / 2 ^ 53)" using assms(2) by (intro mult_right_mono) simp_all
  also have "\<dots> \<le> binary64 y" by (rule binary64_bounds(1)[OF ys])
  finally show ?thesis .
qed

lemma value_at_not_tiny:
  assumes "i < length (E_dict k)" "- 300 \<le> d"
  shows "2 powr (- 1022) \<le> value_at k d i"
proof -
  have "(10::real) powr (- 300) \<le> 10 powr of_int d"
    using assms(2) by (subst powr_le_cancel_iff) simp_all
  then have "10 powr (- 300) \<le> value_at k d i"
    using value_at_bounds(1)[OF assms(1), of d] by linarith
  moreover have "(0::real) < 10 powr (- 300)" by simp
  ultimately show ?thesis using tiny_le_powr10(2) by linarith
qed

lemma yield_value_less:
  assumes "snd p < length (E_dict k)" "snd q < length (E_dict k)" "- 300 \<le> fst p"
    "fst p < fst q \<or> (fst p = fst q \<and> snd p < snd q)"
  shows "yield_value k p < yield_value k q"
  unfolding yield_value_def position_value_def
  by (rule binary64_less[OF value_at_not_tiny[OF assms(1,3)] value_at_gap[OF assms(1,2,4)]])

lemma sorted_yield_range_positions:
  assumes "MINIMUM_E_VALUE \<le> a"
  shows "sorted_wrt (<) (map (yield_value k) (range_positions k a b))"
proof -
  have "sorted_wrt (\<lambda>p q. yield_value k p < yield_value k q) (range_positions k a b)"
  proof (rule sorted_wrt_mono_rel)
    show "sorted_wrt (\<lambda>p q. fst p < fst q \<or> (fst p = fst q \<and> snd p < snd q))
            (range_positions k a b)"
      unfolding range_positions_def by (rule sorted_wrt_erange_positions)
  next
    fix p q
    assume "p \<in> set (range_positions k a b)" "q \<in> set (range_positions k a b)"
      "fst p < fst q \<or> (fst p = fst q \<and> snd p < snd q)"
    then show "yield_value k p < yield_value k q"
      using assms by (intro yield_value_less range_positions_index range_positions_decade)
  qed
  then show ?thesis by (simp add: sorted_wrt_map)
qed

lemma sorted_wrt_filter_takeWhile:
  assumes "sorted_wrt R (map f xs)"
  shows "sorted_wrt R (map f (filter P (takeWhile Q xs)))"
proof -
  have "sorted_wrt (\<lambda>x y. R (f x) (f y)) xs" using assms by (simp add: sorted_wrt_map)
  then have "sorted_wrt (\<lambda>x y. R (f x) (f y)) (take (length (takeWhile Q xs)) xs)"
    by (rule sorted_wrt_take)
  then have "sorted_wrt (\<lambda>x y. R (f x) (f y)) (takeWhile Q xs)"
    by (simp add: takeWhile_eq_take[symmetric])
  then have "sorted_wrt (\<lambda>x y. R (f x) (f y)) (filter P (takeWhile Q xs))"
    by (rule sorted_wrt_filter)
  then show ?thesis by (simp add: sorted_wrt_map)
qed

lemma erange_body_sorted:
  assumes "MINIMUM_E_VALUE \<le> a"
  shows "sorted_wrt (<) (fst (erange_body k a b))"
  by (simp add: erange_body_eq[OF assms]
      sorted_wrt_filter_takeWhile[OF sorted_yield_range_positions[OF assms]])

lemma erange_body_within:
  assumes "MINIMUM_E_VALUE \<le> a" "y \<in> set (fst (erange_body k a b))"
  shows "a \<le> y \<and> y \<le> b"
  using assms(2) by (auto simp: erange_body_eq[OF assms(1)])

lemma sorted_values_in_range:
  assumes "MINIMUM_E_VALUE \<le> a"
  shows "sorted_wrt (<) (values_in_range k a b)"
proof -
  have "sorted_wrt (\<lambda>x y. yield_value k x < yield_value k y) (range_positions k a b)"
    using sorted_yield_range_positions[OF assms, of k b] by (simp add: sorted_wrt_map)
  then have "sorted_wrt (\<lambda>x y. yield_value k x < yield_value k y)
     (filter (\<lambda>p. a \<le> yield_value k p \<and> yield_value k p \<le> b) (range_positions k a b))"
    by (rule sorted_wrt_filter)
  then show ?thesis by (simp add: values_in_range_def sorted_wrt_map)
qed

lemma range_positions_no_overflow:
  assumes "MINIMUM_E_VALUE \<le> a" "0 < b" "20 * b \<le> float_overflow"
    "p \<in> set (range_positions k a b)"
  shows "\<not> overflows k p"
proof -
  obtain d i where p: "p = (d, i)" by (cases p)
  define t :: real where "t = of_int (E_dict k ! i)"
  define P :: real where "P = 10 powr of_int (d - base_decade k)"
  have i: "i < length (E_dict k)" using range_positions_index[OF assms(4)] by (simp add: p)
  have d: "- 300 \<le> d" using range_positions_decade[OF assms(1,4)] by (simp add: p)
  have v: "value_at k d i = t * P" by (simp only: value_at_def t_def P_def)
  have t1: "1 \<le> t" unfolding t_def using entry_int_bounds(1)[OF i] by simp
  have P0: "0 < P" by (simp add: P_def)
  have "of_int d + LOG10_MANTISSA_E k ! i \<le> log 10 b + epsilon_of k"
    using assms(4) mem_range_positions[OF i, of d a b] by (simp add: p)
  then have "log 10 (value_at k d i) < log 10 b + 1"
    using epsilon_of_bounds(2)[of k] by (simp add: log_value_at[OF i])
  also have "log 10 b + 1 = log 10 (10 * b)"
    using assms(2) by (simp add: log_mult_pos)
  finally have D: "t * P < 10 * b"
    using value_at_pos[OF i, of d] assms(2) by (simp add: v)
  have "1 * P \<le> t * P" using t1 P0 by (intro mult_right_mono) simp_all
  then have Pb: "P < 10 * b" using D by simp
  have Psmall: "2 powr (- 1022) \<le> P"
  proof -
    have "base_decade k \<le> 2" by (simp add: base_decade_eq)
    then have "- 302 \<le> real_of_int (d - base_decade k)" using d by simp
    then have "(10::real) powr (- 302) \<le> P" unfolding P_def by (subst powr_le_cancel_iff) simp_all
    then show ?thesis using tiny_le_powr10(1) by linarith
  qed
  have "binary64 P \<le> P * (1 + 1 / 2 ^ 53)" by (rule binary64_bounds(2)[OF Psmall])
  also have "\<dots> \<le> P * 2" using P0 by (intro mult_left_mono) simp_all
  finally have "t * binary64 P \<le> t * (P * 2)" using t1 by (intro mult_left_mono) simp_all
  then have "t * binary64 P < 20 * b" using D by (simp add: mult.assoc[symmetric])
  moreover have "overflows k p \<longleftrightarrow> float_overflow \<le> P \<or> float_overflow \<le> t * binary64 P"
    by (simp only: overflows_def p fst_conv snd_conv t_def P_def)
  ultimately show ?thesis using Pb assms(2,3) by auto
qed

lemma erange_body_no_overflow:
  assumes "MINIMUM_E_VALUE \<le> a" "0 < b" "20 * b \<le> float_overflow"
  shows "erange_body k a b = (values_in_range k a b, None)"
proof -
  have no: "\<forall>p\<in>set (range_positions k a b). \<not> overflows k p"
    using range_positions_no_overflow[OF assms] by auto
  then have tw: "takeWhile (\<lambda>p. \<not> overflows k p) (range_positions k a b)
             = range_positions k a b"
    by (simp add: takeWhile_eq_all_conv)
  have ex: "\<not> (\<exists>p\<in>set (range_positions k a b). overflows k p)"
    using no by simp
  show ?thesis by (simp only: erange_body_eq[OF assms(1)] tw ex if_False values_in_range_def)
qed

section \<open>The standard values of a range, decade by decade\<close>

lemma decade_values_eq:
  "decade_values k d = map (yield_value k) (map (Pair d) [0 ..< length (E_dict k)])"
proof -
  have "decade_values k d =
        map (\<lambda>x. binary64 (of_int x * 10 powr of_int (d - base_decade k)))
          (map (\<lambda>i. E_dict k ! i) [0 ..< length (E_dict k)])"
    by (simp only: decade_values_def map_nth)
  then show ?thesis by (simp add: yield_value_def position_value_def value_at_def comp_def)
qed

lemma concat_decade_values:
  "concat (map (decade_values k) ds) =
     map (yield_value k) (concat (map (\<lambda>d. map (Pair d) [0 ..< length (E_dict k)]) ds))"
  by (induction ds) (simp_all add: decade_values_eq)

lemma sorted_standard_values_between:
  assumes "- 300 \<le> dlo"
  shows "sorted_wrt (<) (standard_values_between k dlo dhi a b)"
proof -
  let ?ps = "concat (map (\<lambda>d. map (Pair d) [0 ..< length (E_dict k)]) [dlo..dhi])"
  have "sorted_wrt (<) [dlo..dhi]" by (simp add: strict_sorted_iff)
  then have lex: "sorted_wrt (\<lambda>p q. fst p < fst q \<or> (fst p = fst q \<and> snd p < snd q)) ?ps"
    by (rule sorted_wrt_positions)
  have "sorted_wrt (\<lambda>p q. yield_value k p < yield_value k q) ?ps"
  proof (rule sorted_wrt_mono_rel[OF _ lex])
    fix p q
    assume "p \<in> set ?ps" "q \<in> set ?ps" "fst p < fst q \<or> (fst p = fst q \<and> snd p < snd q)"
    then show "yield_value k p < yield_value k q"
      using assms by (intro yield_value_less) auto
  qed
  then have "sorted_wrt (<) (concat (map (decade_values k) [dlo..dhi]))"
    by (simp add: concat_decade_values sorted_wrt_map)
  then show ?thesis unfolding standard_values_between_def by (rule sorted_wrt_filter)
qed

lemma value_at_below_next_decade:
  assumes "i < length (E_dict k)"
  shows "value_at k d i * (1001 / 1000) \<le> 10 * 10 powr of_int d"
proof -
  have j: "0 < length (E_dict k)" by (rule table_nonempty)
  have "value_at k d i * (1001 / 1000) \<le> value_at k (d + 1) 0"
    by (rule value_at_gap[OF assms j]) simp
  also have "value_at k (d + 1) 0 = 10 powr of_int (d + 1)"
  proof -
    have "real_of_int (E_dict k ! 0) = 10 powr of_int (base_decade k)"
      by (simp add: table_first powr_base_decade)
    then have "value_at k (d + 1) 0 = 10 powr of_int (base_decade k) * 10 powr of_int (d + 1 - base_decade k)"
      by (simp only: value_at_def)
    also have "\<dots> = 10 powr of_int (d + 1)" by (simp add: powr_add[symmetric])
    finally show ?thesis .
  qed
  also have "\<dots> = 10 * 10 powr of_int d" by (simp add: powr_add)
  finally show ?thesis .
qed

lemma log10_one_plus: 
  assumes "0 \<le> y"
  shows "log 10 (1 + y) \<le> y"
proof -
  have "exp (1::real) \<le> 10" using exp_le by linarith
  then have "ln (exp (1::real)) \<le> ln 10" by (subst ln_le_cancel_iff) simp_all
  then have l10: "1 \<le> ln (10::real)" by simp
  have "ln (1 + y) \<le> y" using assms by (intro ln_add_one_self_le_self)
  moreover have "0 \<le> ln (1 + y)" using assms by simp
  ultimately have "ln (1 + y) / ln 10 \<le> y / 1"
    using l10 assms by (intro frac_le) simp_all
  then show ?thesis by (simp add: log_def)
qed

lemma log10_le_plus:
  assumes "0 < x" "0 < z" "0 \<le> y" "x \<le> z * (1 + y)"
  shows "log 10 x \<le> log 10 z + y"
proof -
  have "log 10 x \<le> log 10 (z * (1 + y))"
    using assms by (subst log_le_cancel_iff) (simp_all add: mult_pos_pos)
  also have "\<dots> = log 10 z + log 10 (1 + y)" using assms by (intro log_mult_pos) simp_all
  also have "\<dots> \<le> log 10 z + y" using log10_one_plus[OF assms(3)] by simp
  finally show ?thesis .
qed

lemma epsilon_of_lower: "1 / 20000 \<le> epsilon_of k"
proof -
  let ?n = "length (E_dict k)"
  have n: "3 \<le> ?n" by (rule table_length_ge)
  have i: "?n - 2 < ?n" and j: "?n - 1 < ?n" using n by simp_all
  have ne: "LOG10_MANTISSA_E k \<noteq> []" using n mantissa_length[of k] by auto
  have l: "last (LOG10_MANTISSA_E k) = LOG10_MANTISSA_E k ! (?n - 1)"
    using ne by (simp add: last_conv_nth mantissa_length)
  have gap: "value_at k 0 (?n - 2) * (1001 / 1000) \<le> value_at k 0 (?n - 1)"
    using n by (intro value_at_gap[OF i j]) auto
  have "(10::real) \<le> 1 + real 10000 * (1 / 1000)" by simp
  also have "\<dots> \<le> (1 + 1 / 1000) ^ 10000" by (rule Bernoulli_inequality) simp
  finally have "log 10 10 \<le> log 10 ((1001 / 1000) ^ 10000)"
    by (subst log_le_cancel_iff) simp_all
  then have "1 \<le> 10000 * log 10 (1001 / 1000)" by (simp add: log_nat_power)
  then have l1: "1 / 10000 \<le> log 10 (1001 / 1000)" by simp
  have "log 10 (value_at k 0 (?n - 2) * (1001 / 1000)) \<le> log 10 (value_at k 0 (?n - 1))"
    using gap value_at_pos[OF i, of 0] value_at_pos[OF j, of 0]
    by (subst log_le_cancel_iff) (simp_all add: mult_pos_pos)
  moreover have "log 10 (value_at k 0 (?n - 2) * (1001 / 1000))
      = log 10 (value_at k 0 (?n - 2)) + log 10 (1001 / 1000)"
    using value_at_pos[OF i, of 0] by (intro log_mult_pos) simp_all
  ultimately have "log 10 (value_at k 0 (?n - 2)) + 1 / 10000 \<le> log 10 (value_at k 0 (?n - 1))"
    using l1 by linarith
  moreover have "log 10 (value_at k 0 (?n - 2)) = of_int 0 + LOG10_MANTISSA_E k ! (?n - 2)"
    by (rule log_value_at[OF i])
  moreover have "log 10 (value_at k 0 (?n - 1)) = of_int 0 + LOG10_MANTISSA_E k ! (?n - 1)"
    by (rule log_value_at[OF j])
  ultimately have "LOG10_MANTISSA_E k ! (?n - 2) + 1 / 10000 \<le> LOG10_MANTISSA_E k ! (?n - 1)"
    by simp
  then show ?thesis by (simp add: epsilon_of_def l mantissa_length)
qed

lemma mem_range_positions_yield:
  assumes i: "i < length (E_dict k)" and d: "- 300 \<le> d" and a: "0 < a"
    and y: "a \<le> yield_value k (d, i)" "yield_value k (d, i) \<le> b"
  shows "(d, i) \<in> set (range_positions k a b)"
proof -
  define D where "D = value_at k d i"
  have D0: "0 < D" unfolding D_def by (rule value_at_pos[OF i])
  have small: "2 powr (- 1022) \<le> D" unfolding D_def by (rule value_at_not_tiny[OF i d])
  have yv: "yield_value k (d, i) = binary64 D"
    by (simp add: yield_value_def position_value_def D_def)
  have up: "binary64 D \<le> D * (1 + 1 / 2 ^ 53)" by (rule binary64_bounds(2)[OF small])
  have lo: "D * (1 - 1 / 2 ^ 53) \<le> binary64 D" by (rule binary64_bounds(1)[OF small])
  have b0: "0 < b" using y(2) binary64_bounds(3)[OF small] by (simp add: yv)
  have eps: "1 / 20000 \<le> epsilon_of k" by (rule epsilon_of_lower)
  have "a \<le> D * (1 + 1 / 2 ^ 53)" using y(1) up by (simp add: yv)
  then have "log 10 a \<le> log 10 D + 1 / 2 ^ 53" using a D0 by (intro log10_le_plus) simp_all
  then have A: "log 10 a - epsilon_of k \<le> log 10 D" using eps by simp
  have "D * (1 - 1 / 2 ^ 53) \<le> b" using y(2) lo by (simp add: yv)
  then have "D * (1 - 1 / 2 ^ 53) * (1 + 1 / 2 ^ 52) \<le> b * (1 + 1 / 2 ^ 52)"
    by (intro mult_right_mono) simp_all
  moreover have "D * 1 \<le> D * ((1 - 1 / 2 ^ 53) * (1 + 1 / 2 ^ 52))"
    using D0 by (intro mult_left_mono) simp_all
  ultimately have "D \<le> b * (1 + 1 / 2 ^ 52)" by (simp add: mult.assoc)
  then have "log 10 D \<le> log 10 b + 1 / 2 ^ 52" using b0 D0 by (intro log10_le_plus) simp_all
  then have B: "log 10 D \<le> log 10 b + epsilon_of k" using eps by simp
  show ?thesis
    using A B by (simp add: mem_range_positions[OF i] log_value_at[OF i, symmetric] D_def)
qed

lemma set_standard_values_between:
  assumes "MINIMUM_E_VALUE \<le> a" "- 300 \<le> dlo" "10 powr of_int dlo \<le> a"
    "b * (1001 / 1000) \<le> 10 * 10 powr of_int dhi"
  shows "set (standard_values_between k dlo dhi a b) = set (values_in_range k a b)"
proof (intro set_eqI iffI)
  fix v assume "v \<in> set (standard_values_between k dlo dhi a b)"
  then obtain d i where v: "i < length (E_dict k)" "dlo \<le> d" "v = yield_value k (d, i)"
    "a \<le> v" "v \<le> b"
    by (auto simp: standard_values_between_def concat_decade_values)
  have a0: "0 < a" using assms(1) MINIMUM_E_VALUE_bounds(1) by linarith
  have d: "- 300 \<le> d" using assms(2) v(2) by simp
  have "(d, i) \<in> set (range_positions k a b)"
    using v(4,5) unfolding v(3) by (intro mem_range_positions_yield[OF v(1) d a0])
  then show "v \<in> set (values_in_range k a b)"
    using v(3,4,5) by (force simp: values_in_range_def)
next
  fix v assume "v \<in> set (values_in_range k a b)"
  then obtain p where p: "p \<in> set (range_positions k a b)" "v = yield_value k p"
    "a \<le> v" "v \<le> b"
    by (auto simp: values_in_range_def)
  obtain d i where pd: "p = (d, i)" by (cases p)
  have i: "i < length (E_dict k)" using range_positions_index[OF p(1)] by (simp add: pd)
  have d: "- 300 \<le> d" using range_positions_decade[OF assms(1) p(1)] by (simp add: pd)
  define D where "D = value_at k d i"
  have D0: "0 < D" unfolding D_def by (rule value_at_pos[OF i])
  have small: "2 powr (- 1022) \<le> D" unfolding D_def by (rule value_at_not_tiny[OF i d])
  have yv: "v = binary64 D" by (simp add: p(2) pd yield_value_def position_value_def D_def)
  have up: "binary64 D \<le> D * (1 + 1 / 2 ^ 53)" by (rule binary64_bounds(2)[OF small])
  have lo: "D * (1 - 1 / 2 ^ 53) \<le> binary64 D" by (rule binary64_bounds(1)[OF small])
  have a0: "0 < a" using assms(1) MINIMUM_E_VALUE_bounds(1) by linarith
  have b0: "0 < b" using a0 p(3,4) by linarith
  have lo_d: "dlo \<le> d"
  proof (rule ccontr)
    assume "\<not> dlo \<le> d"
    then have "real_of_int d + 1 \<le> of_int dlo" by linarith
    then have "(10::real) powr (of_int d + 1) \<le> 10 powr of_int dlo"
      by (subst powr_le_cancel_iff) simp_all
    then have "10 * (10::real) powr of_int d \<le> 10 powr of_int dlo" by (simp add: powr_add)
    moreover have "D * (1001 / 1000) \<le> 10 * 10 powr of_int d"
      unfolding D_def by (rule value_at_below_next_decade[OF i])
    ultimately have "D * (1001 / 1000) \<le> a" using assms(3) by linarith
    then have "D * (1001 / 1000) \<le> D * (1 + 1 / 2 ^ 53)" using p(3) up yv by linarith
    then show False using D0 by simp
  qed
  have hi_d: "d \<le> dhi"
  proof (rule ccontr)
    assume "\<not> d \<le> dhi"
    then have "real_of_int dhi + 1 \<le> of_int d" by linarith
    then have "(10::real) powr (of_int dhi + 1) \<le> 10 powr of_int d"
      by (subst powr_le_cancel_iff) simp_all
    then have "10 * (10::real) powr of_int dhi \<le> 10 powr of_int d" by (simp add: powr_add)
    moreover have "10 powr of_int d \<le> D"
      unfolding D_def by (rule value_at_bounds(1)[OF i])
    ultimately have "b * (1001 / 1000) \<le> D" using assms(4) by linarith
    then have "b * (1001 / 1000) * (1 - 1 / 2 ^ 53) \<le> D * (1 - 1 / 2 ^ 53)"
      by (intro mult_right_mono) simp_all
    then have "b * ((1001 / 1000) * (1 - 1 / 2 ^ 53)) \<le> b" using lo yv p(4) by (simp add: mult.assoc)
    moreover have "b * 1 < b * ((1001 / 1000) * (1 - 1 / 2 ^ 53))"
      using b0 by (intro mult_strict_left_mono) simp_all
    ultimately show False by simp
  qed
  have "(d, i) \<in> set (concat (map (\<lambda>d. map (Pair d) [0 ..< length (E_dict k)]) [dlo..dhi]))"
    using lo_d hi_d i by (auto intro!: bexI[of _ d])
  then have "yield_value k (d, i) \<in> set (concat (map (decade_values k) [dlo..dhi]))"
    unfolding concat_decade_values set_map by (rule imageI)
  then show "v \<in> set (standard_values_between k dlo dhi a b)"
    using p(2,3,4) by (simp add: standard_values_between_def pd)
qed

lemma erange_valid:
  assumes "MINIMUM_E_VALUE \<le> a" "a \<le> b"
  shows "erange k (Finite a) (Finite b) = erange_body k a b"
  using assms by simp

lemma erange_eq_standard_values_between:
  assumes "MINIMUM_E_VALUE \<le> a" "a \<le> b" "20 * b \<le> float_overflow"
    "- 300 \<le> dlo" "10 powr of_int dlo \<le> a" "b * (1001 / 1000) \<le> 10 * 10 powr of_int dhi"
  shows "erange k (Finite a) (Finite b) = (standard_values_between k dlo dhi a b, None)"
proof -
  have a: "0 < a" using assms(1) MINIMUM_E_VALUE_bounds(1) by linarith
  then have b: "0 < b" using assms(2) by linarith
  have "set (values_in_range k a b) = set (standard_values_between k dlo dhi a b)"
    by (rule set_standard_values_between[OF assms(1,4,5,6), symmetric])
  then have "values_in_range k a b = standard_values_between k dlo dhi a b"
    using sorted_values_in_range[OF assms(1), of k b]
      sorted_standard_values_between[OF assms(4), of k dhi a b]
    by (intro sorted_distinct_set_unique) (simp_all add: strict_sorted_iff)
  then show ?thesis
    by (simp only: erange_valid[OF assms(1,2)] erange_body_no_overflow[OF assms(1) b assms(3)])
qed

section \<open>The range from 21 to 147 in E12\<close>

lemma decade_values_E12_1: "decade_values E12 1 = [10, 12, 15, 18, 22, 27, 33, 39, 47, 56, 68, 82]"
  by (simp add: decade_values_def base_decade_eq E12_values_def binary64_numeral)

lemma decade_values_E12_2:
  "decade_values E12 2 = [100, 120, 150, 180, 220, 270, 330, 390, 470, 560, 680, 820]"
  by (simp add: decade_values_def base_decade_eq E12_values_def binary64_numeral)

lemma erange_E12_21_147_between:
  "erange E12 (Finite 21) (Finite 147) = (standard_values_between E12 1 2 21 147, None)"
  by (rule erange_eq_standard_values_between)
     (simp_all add: MINIMUM_E_VALUE_def float_overflow_def)

lemma standard_values_E12_21_147:
  "standard_values_between E12 1 2 21 147 = [22, 27, 33, 39, 47, 56, 68, 82, 100, 120]"
  by (simp add: standard_values_between_def decade_values_E12_1 decade_values_E12_2
      upto.simps[of 1])

text \<open>
  C1, as the specification states it: \<open>erange(E12, 21, 147)\<close> yields 22, 27, 33, 39, 47,
  56, 68, 82, 100, 120, 147. The number 147 is not a value of E12, whose decade from 100
  continues 100, 120, 150. What the code yields is the ten values from 22 to 120.
\<close>

theorem erange_E12_21_147:
  "erange E12 (Finite 21) (Finite 147) = ([22, 27, 33, 39, 47, 56, 68, 82, 100, 120], None)"
  by (simp only: erange_E12_21_147_between standard_values_E12_21_147)

theorem erange_E12_21_147_without_147:
  "fst (erange E12 (Finite 21) (Finite 147)) \<noteq> [22, 27, 33, 39, 47, 56, 68, 82, 100, 120, 147]"
  by (simp only: erange_E12_21_147_between standard_values_E12_21_147 fst_conv) simp

section \<open>Order and bounds of the yielded values\<close>

lemma generate_erange_body_turns: "generate (erange_body_turns k a b) = erange_body k a b"
  by (simp add: erange_body_turns_def erange_body_def Let_def split: sum.splits)

lemma generate_erange_turns: "generate (erange_turns k start stop) = erange k start stop"
  by (cases start; cases stop) (simp_all add: generate_erange_body_turns)

lemma generate_run_to_yield:
  "generate ts =
     (case run_to_yield ts of
        (Yielded v, rest) \<Rightarrow> (v # fst (generate rest), snd (generate rest))
      | (Raised e, rest) \<Rightarrow> ([], Some e)
      | (StopIteration, rest) \<Rightarrow> ([], None))"
  by (induction ts rule: run_to_yield.induct) simp_all

lemma second_call_eq: "second_call s n k start stop = erange k start stop"
  by (simp add: second_call_def call_erange_def drain_def Let_def generate_erange_turns)

lemma erange_finite_cases:
  "(MINIMUM_E_VALUE \<le> a \<and> erange k (Finite a) (Finite b) = erange_body k a b)
   \<or> fst (erange k (Finite a) (Finite b)) = []"
  by simp

text \<open>
  C6: the values that \<open>erange\<close> yields for a range from \<open>a\<close> to \<open>b\<close> form a finite
  sequence (a list), strictly increasing, hence without duplicates, and each of them lies
  between \<open>a\<close> and \<open>b\<close>. A call can be made again: whatever generator objects exist and
  however far the generator of a first call has been advanced, the generator of a second
  call with the same arguments, run to its end, yields this same sequence.
\<close>

theorem erange_strictly_increasing_within:
  "sorted_wrt (<) (fst (erange k (Finite a) (Finite b))) \<and>
   distinct (fst (erange k (Finite a) (Finite b))) \<and>
   (\<forall>y\<in>set (fst (erange k (Finite a) (Finite b))). a \<le> y \<and> y \<le> b) \<and>
   second_call s n k (Finite a) (Finite b) = erange k (Finite a) (Finite b)"
proof -
  have s: "sorted_wrt (<) (fst (erange k (Finite a) (Finite b)))"
    using erange_finite_cases[of a k b] erange_body_sorted[of a k b] by auto
  have w: "\<forall>y\<in>set (fst (erange k (Finite a) (Finite b))). a \<le> y \<and> y \<le> b"
    using erange_finite_cases[of a k b] erange_body_within[of a _ k b] by auto
  from s have "distinct (fst (erange k (Finite a) (Finite b)))"
    by (simp add: strict_sorted_iff)
  with s w show ?thesis by (simp only: second_call_eq)
qed

theorem erange_strictly_increasing_within_witness:
  "sorted_wrt (<) (fst (erange E12 (Finite 21) (Finite 147))) \<and>
   distinct (fst (erange E12 (Finite 21) (Finite 147))) \<and>
   100 \<in> set (fst (erange E12 (Finite 21) (Finite 147))) \<and> (21::real) \<le> 100 \<and> (100::real) \<le> 147 \<and>
   second_call [] 3 E12 (Finite 21) (Finite 147) = erange E12 (Finite 21) (Finite 147)"
  using erange_strictly_increasing_within[of E12 21 147 "[]" 3]
  unfolding erange_E12_21_147_between standard_values_E12_21_147 fst_conv
  by simp

section \<open>The geometric scale and the search window\<close>

lemma exact_scale_eq:
  "exact_scale k =
     (case k of E3 \<Rightarrow> 11 / 5 | E6 \<Rightarrow> 3 / 2 | E12 \<Rightarrow> 5 / 4 | E24 \<Rightarrow> 15 / 13
      | E48 \<Rightarrow> 178 / 169 | E96 \<Rightarrow> 137 / 133 | E192 \<Rightarrow> 52 / 51)"
  by (cases k) (simp_all only: exact_scale_def E_dict.simps table_defs ESeries.case, code_simp+)

lemma exact_scale_range: "1019 / 1000 \<le> exact_scale k" "exact_scale k \<le> 11 / 5"
  by (cases k; simp add: exact_scale_eq)+

lemma ratio_ge_one:
  assumes "(x, y) \<in> set (zip (E_dict k) (tl (E_dict k)))"
  shows "(1::real) \<le> of_int y / of_int x"
proof -
  obtain i where i: "i < length (tl (E_dict k))" "x = E_dict k ! i" "y = tl (E_dict k) ! i"
    using assms by (auto simp: set_zip)
  have i1: "Suc i < length (E_dict k)" using i(1) by simp
  have y: "y = E_dict k ! Suc i" using i(1,3) by (simp add: nth_tl)
  have "x < y" unfolding i(2) y
    using table_sorted[of k] i1 by (simp add: sorted_wrt_iff_nth_less)
  moreover have "1 \<le> x" unfolding i(2) using entry_int_bounds(1)[of i k] i1 by simp
  ultimately show ?thesis by simp
qed

lemma scale_bounds:
  "exact_scale k * (1 - 1 / 2 ^ 53) \<le> GEOMETRIC_SCALE_E k"
  "GEOMETRIC_SCALE_E k \<le> exact_scale k * (1 + 1 / 2 ^ 53)"
proof -
  define R :: "real set" where
    "R = set (map (\<lambda>(a, b). of_int b / of_int a) (zip (E_dict k) (tl (E_dict k))))"
  have fin: "finite R" by (simp add: R_def)
  have ne: "R \<noteq> {}"
  proof -
    have "zip (E_dict k) (tl (E_dict k)) \<noteq> []"
      using table_length_ge[of k] by (cases "E_dict k"; cases "tl (E_dict k)") auto
    then show ?thesis by (simp add: R_def)
  qed
  have S: "exact_scale k = Max R" by (simp add: exact_scale_def R_def)
  have G: "GEOMETRIC_SCALE_E k = Max (binary64 ` R)"
  proof -
    have "map (\<lambda>(a, b). binary64 (of_int b / of_int a)) (zip (E_dict k) (tl (E_dict k)))
          = map binary64 (map (\<lambda>(a, b). of_int b / of_int a) (zip (E_dict k) (tl (E_dict k))))"
      by (simp add: comp_def case_prod_unfold)
    then show ?thesis by (simp only: GEOMETRIC_SCALE_E_def R_def set_map)
  qed
  have one: "\<And>r. r \<in> R \<Longrightarrow> 1 \<le> r"
    using ratio_ge_one[of _ _ k] by (auto simp: R_def)
  have small: "\<And>r. r \<in> R \<Longrightarrow> 2 powr (- 1022) \<le> r"
  proof -
    fix r assume "r \<in> R"
    then have "1 \<le> r" by (rule one)
    moreover have "(2::real) powr (- 1022) \<le> 2 powr 0" by (subst powr_le_cancel_iff) simp_all
    ultimately show "2 powr (- 1022) \<le> r" by simp
  qed
  have SR: "Max R \<in> R" using fin ne by (rule Max_in)
  have "Max R * (1 - 1 / 2 ^ 53) \<le> binary64 (Max R)" by (rule binary64_bounds(1)[OF small[OF SR]])
  also have "\<dots> \<le> Max (binary64 ` R)" using fin SR by (intro Max_ge) auto
  finally show "exact_scale k * (1 - 1 / 2 ^ 53) \<le> GEOMETRIC_SCALE_E k" by (simp only: S G)
  have "Max (binary64 ` R) \<le> Max R * (1 + 1 / 2 ^ 53)"
  proof (rule Max.boundedI)
    show "finite (binary64 ` R)" using fin by simp
    show "binary64 ` R \<noteq> {}" using ne by simp
    fix z assume "z \<in> binary64 ` R"
    then obtain r where r: "r \<in> R" "z = binary64 r" by auto
    have "binary64 r \<le> r * (1 + 1 / 2 ^ 53)" by (rule binary64_bounds(2)[OF small[OF r(1)]])
    also have "\<dots> \<le> Max R * (1 + 1 / 2 ^ 53)"
      using Max_ge[OF fin r(1)] by (intro mult_right_mono) simp_all
    finally show "z \<le> Max R * (1 + 1 / 2 ^ 53)" by (simp add: r(2))
  qed
  then show "GEOMETRIC_SCALE_E k \<le> exact_scale k * (1 + 1 / 2 ^ 53)" by (simp only: S G)
qed

lemma powr_three_halves_bounds:
  fixes lo x hi l h :: real
  assumes "0 < lo" "lo \<le> x" "x \<le> hi" "0 \<le> l" "l * l \<le> lo * lo * lo" "0 \<le> h" "hi * hi * hi \<le> h * h"
  shows "l \<le> x powr (3 / 2)" "x powr (3 / 2) \<le> h"
proof -
  have x0: "0 < x" using assms(1,2) by linarith
  have sq: "(x powr (3 / 2)) * (x powr (3 / 2)) = x * x * x"
  proof -
    have "(x powr (3 / 2)) * (x powr (3 / 2)) = x powr 3" by (simp add: powr_add[symmetric])
    also have "\<dots> = x ^ 3" using x0 by (simp add: powr_numeral)
    finally show ?thesis by (simp add: power3_eq_cube)
  qed
  have p0: "0 \<le> x powr (3 / 2)" by simp
  have "lo * lo * lo \<le> x * x * x"
    using assms(1,2) by (intro mult_mono) simp_all
  then have "l * l \<le> (x powr (3 / 2)) * (x powr (3 / 2))" using assms(5) sq by linarith
  then have "l\<^sup>2 \<le> (x powr (3 / 2))\<^sup>2" by (simp add: power2_eq_square)
  then show "l \<le> x powr (3 / 2)" using p0 by (rule power2_le_imp_le)
  have "x * x * x \<le> hi * hi * hi"
    using x0 assms(3) by (intro mult_mono) simp_all
  then have "(x powr (3 / 2)) * (x powr (3 / 2)) \<le> h * h" using assms(7) sq by linarith
  then have "(x powr (3 / 2))\<^sup>2 \<le> h\<^sup>2" by (simp add: power2_eq_square)
  then show "x powr (3 / 2) \<le> h" using assms(6) by (rule power2_le_imp_le)
qed

lemma binary64_interval:
  fixes lo x hi :: real
  assumes "1 / 1000 \<le> lo" "lo \<le> x" "x \<le> hi"
  shows "lo * (1 - 1 / 2 ^ 53) \<le> binary64 x" "binary64 x \<le> hi * (1 + 1 / 2 ^ 53)"
proof -
  have "(2::real) powr (- 1022) \<le> 10 powr (- 300) / 2" by (rule tiny_le_powr10(2))
  also have "(10::real) powr (- 300) = 1 / 10 ^ 300" by (simp add: powr_minus_divide)
  also have "1 / 10 ^ 300 / 2 \<le> (1 / 1000 :: real)" by simp
  finally have small: "2 powr (- 1022) \<le> x" using assms(1,2) by linarith
  have "lo * (1 - 1 / 2 ^ 53) \<le> x * (1 - 1 / 2 ^ 53)"
    using assms(2) by (intro mult_right_mono) simp_all
  then show "lo * (1 - 1 / 2 ^ 53) \<le> binary64 x" using binary64_bounds(1)[OF small] by linarith
  have "x * (1 + 1 / 2 ^ 53) \<le> hi * (1 + 1 / 2 ^ 53)"
    using assms(3) by (intro mult_right_mono) simp_all
  then show "binary64 x \<le> hi * (1 + 1 / 2 ^ 53)" using binary64_bounds(2)[OF small] by linarith
qed

lemma search_factor_E24: "1238 / 1000 \<le> search_factor E24" "search_factor E24 \<le> 1241 / 1000"
proof -
  have S: "11538 / 10000 \<le> GEOMETRIC_SCALE_E E24" "GEOMETRIC_SCALE_E E24 \<le> 11539 / 10000"
    using scale_bounds[of E24] by (simp_all add: exact_scale_eq)
  have P: "1239 / 1000 \<le> GEOMETRIC_SCALE_E E24 powr (3 / 2)"
    "GEOMETRIC_SCALE_E E24 powr (3 / 2) \<le> 124 / 100"
    using powr_three_halves_bounds[of "11538 / 10000" "GEOMETRIC_SCALE_E E24" "11539 / 10000"
        "1239 / 1000" "124 / 100"] S
    by simp_all
  have a: "1239 / 1000 * (1 - 1 / 2 ^ 53) \<le> search_factor E24"
    unfolding search_factor_def using P by (intro binary64_interval(1)[of _ _ "124 / 100"]) simp_all
  have b: "search_factor E24 \<le> 124 / 100 * (1 + 1 / 2 ^ 53)"
    unfolding search_factor_def using P by (intro binary64_interval(2)[of "1239 / 1000"]) simp_all
  show "1238 / 1000 \<le> search_factor E24" using a by simp
  show "search_factor E24 \<le> 1241 / 1000" using b by simp
qed

lemma find_nearest_few_unfold:
  "find_nearest_few k v num =
     (if num \<notin> {1, 2, 3} then Inl (ValueError (BadNum num))
      else case erange k (Finite (binary64 (v / search_factor k))) (py_mul v (search_factor k)) of
             (candidates, Some e) \<Rightarrow> Inl e
           | (candidates, None) \<Rightarrow> Inr (nearest_n candidates v (nat num)))"
  by (simp only: find_nearest_few_def search_factor_def Let_def)

lemma binary64_neg_numeral:
  assumes "(numeral w :: int) < 2 ^ 53"
  shows "binary64 (- numeral w) = - numeral w"
  using binary64_of_int[of "- numeral w"] assms by simp

lemma binary64_one: "binary64 1 = 1"
  using binary64_of_int[of 1] by simp

lemma binary64_zero: "binary64 0 = 0"
  by (simp add: binary64_def)

section \<open>The three nearest values of 13 in E24\<close>

lemma decade_values_E24_1:
  "decade_values E24 1 =
     [10, 11, 12, 13, 15, 16, 18, 20, 22, 24, 27, 30, 33, 36, 39, 43, 47, 51, 56, 62, 68, 75, 82, 91]"
  by (simp add: decade_values_def base_decade_eq E24_values_def binary64_numeral)

lemma window_E24_13:
  "1047 / 100 \<le> binary64 (13 / search_factor E24)"
  "binary64 (13 / search_factor E24) \<le> 1051 / 100"
  "py_mul 13 (search_factor E24) = Finite (binary64 (13 * search_factor E24))"
  "1609 / 100 \<le> binary64 (13 * search_factor E24)"
  "binary64 (13 * search_factor E24) \<le> 1614 / 100"
proof -
  define P where "P = search_factor E24"
  have P: "1238 / 1000 \<le> P" "P \<le> 1241 / 1000" unfolding P_def by (rule search_factor_E24)+
  have P0: "0 < P" using P(1) by linarith
  have q: "1047 / 100 < 13 / P" "13 / P < 1051 / 100"
    using P P0 by (simp_all add: field_simps)
  have a: "(10475 / 1000) * (1 - 1 / 2 ^ 53) \<le> binary64 (13 / P)"
    using P P0 by (intro binary64_interval(1)[of _ _ "13 / P"]) (simp_all add: field_simps)
  have b: "binary64 (13 / P) \<le> (10501 / 1000) * (1 + 1 / 2 ^ 53)"
    using P P0 by (intro binary64_interval(2)[of "13 / P"]) (simp_all add: field_simps)
  show "1047 / 100 \<le> binary64 (13 / search_factor E24)" using a by (simp add: P_def)
  show "binary64 (13 / search_factor E24) \<le> 1051 / 100" using b by (simp add: P_def)
  have m: "16094 / 1000 \<le> 13 * P" "13 * P \<le> 16133 / 1000" using P by simp_all
  have "13 * P < float_overflow" using m(2) by (simp add: float_overflow_def)
  moreover have "\<not> 13 * P \<le> - float_overflow" using m(1) float_overflow_pos by linarith
  ultimately show "py_mul 13 (search_factor E24) = Finite (binary64 (13 * search_factor E24))"
    by (simp add: py_mul_def P_def)
  have c: "(16094 / 1000) * (1 - 1 / 2 ^ 53) \<le> binary64 (13 * P)"
    using m by (intro binary64_interval(1)[of _ _ "13 * P"]) simp_all
  have d: "binary64 (13 * P) \<le> (16133 / 1000) * (1 + 1 / 2 ^ 53)"
    using m by (intro binary64_interval(2)[of "13 * P"]) simp_all
  show "1609 / 100 \<le> binary64 (13 * search_factor E24)" using c by (simp add: P_def)
  show "binary64 (13 * search_factor E24) \<le> 1614 / 100" using d by (simp add: P_def)
qed

lemma candidates_E24_13:
  "erange E24 (Finite (binary64 (13 / search_factor E24))) (py_mul 13 (search_factor E24))
     = ([11, 12, 13, 15, 16], None)"
proof -
  define a where "a = binary64 (13 / search_factor E24)"
  define b where "b = binary64 (13 * search_factor E24)"
  have a: "1047 / 100 \<le> a" "a \<le> 1051 / 100" unfolding a_def by (rule window_E24_13)+
  have b: "1609 / 100 \<le> b" "b \<le> 1614 / 100" unfolding b_def by (rule window_E24_13)+
  have "erange E24 (Finite a) (Finite b) = (standard_values_between E24 1 1 a b, None)"
    using a b
    by (intro erange_eq_standard_values_between)
       (simp_all add: MINIMUM_E_VALUE_def float_overflow_def)
  moreover have "standard_values_between E24 1 1 a b = [11, 12, 13, 15, 16]"
    using a b by (simp add: standard_values_between_def decade_values_E24_1)
  ultimately show ?thesis by (simp only: window_E24_13(3) a_def[symmetric] b_def[symmetric])
qed

lemma binary64_neg_one: "binary64 (- 1) = - 1"
  using binary64_of_int[of "- 1"] by simp

lemmas binary64_int_simps =
  binary64_numeral binary64_neg_numeral binary64_zero binary64_one binary64_neg_one

lemma nearest_three_E24_13: "nearest_n [11, 12, 13, 15, 16] 13 3 = [11, 12, 13]"
  by (simp add: nearest_n_def binary64_int_simps)

text \<open>
  C5: the three values that \<open>find_nearest_few\<close> returns contain a value strictly greater
  than the target; the docstring of the function promises it. For the target 13 in E24
  the candidates in the search window are 11, 12, 13, 15, 16, at distances 2, 1, 0, 2, 3.
  The stable sort by distance puts 11 before 15, so the three nearest are 11, 12, 13,
  and none of them is greater than 13.
\<close>

theorem find_nearest_few_E24_13: "find_nearest_few E24 13 3 = Inr [11, 12, 13]"
  by (simp add: find_nearest_few_unfold candidates_E24_13 nearest_three_E24_13
      del: erange.simps)

text \<open>
  C9: the directional searches never reach \<open>assert False\<close>. On the same input,
  \<open>find_greater_than(E24, 13)\<close> scans 11, 12, 13, finds no value greater than 13 and
  fails its assertion.
\<close>

theorem find_greater_than_E24_13: "find_greater_than E24 13 = Inl AssertionError"
  by (simp add: find_greater_than_def find_nearest_few_unfold candidates_E24_13
      nearest_three_E24_13 del: erange.simps)

end
